theory Spec2Isabelle
  imports Main "HOL-Library.Tree" "HOL-Library.Multiset"
begin

section \<open>The data model of \<open>tsbtreedb/unbalancedDB.py\<close>\<close>

text \<open>
  The database is one file: a superblock whose first eight bytes hold the address of the
  root node, then length-prefixed records that are only ever appended. A record holds
  either the UTF-8 bytes of a value or the pickle of a node, a dict of the addresses of the
  left child, of the value and of the right child, and the key. The model keeps a record
  as the data it decodes to; decoding a record with the other decoder is an error.

  Keys are of one linearly ordered type, compared with \<open><\<close>, \<open>>\<close> and \<open><=\<close> as the
  code compares them; values are strings, and \<open>None\<close> where a reference holds nothing.

  Python exceptions are values of \<open>error\<close>. \<open>AttributeError\<close> carries the type of the
  object and the attribute that it lacks.
\<close>

datatype error =
    KeyError
  | ValueError string
  | AttributeError string string
  | UnboundLocalError string
  | RecursionError
  | MalformedRecord

datatype 'k payload =
    ValueBytes string
  | NodePickle (p_left: nat) (p_key: 'k) (p_value: nat) (p_right: nat)

text \<open>
  The file behind \<open>Storage._f\<close>: \<open>root\<close> is the number in bytes 0 to 7 (a byte past the
  end of the file reads as zero, which is what \<open>_ensure_superblock\<close> writes there),
  \<open>recs\<close> gives the record that starts at an offset, \<open>eof\<close> is the length of the file.
  Offsets are natural numbers: the operating system keeps them below \<open>2 ^ 63\<close>, so packing
  one into eight bytes does not fail, and failures of the file system are not modelled.
\<close>

record 'k dbfile =
  root :: nat
  recs :: "nat \<rightharpoonup> 'k payload"
  eof :: nat

record 'k storage =
  fobj :: "'k dbfile"
  closed :: bool
  locked :: bool

datatype valueref = ValueRef (vreferent: "string option") (vaddress: nat)

datatype 'k noderef = BinaryNodeRef (referent: "'k node option") (address: nat)
  and 'k node =
    BinaryNode (left_ref: "'k noderef") (key: 'k) (value_ref: valueref) (right_ref: "'k noderef")

text \<open>
  \<open>BinaryTree\<close> holds the storage and the reference to the root. \<open>DBDB\<close> holds the same
  storage object and the tree, so one record stands for both.
\<close>

record 'k BinaryTree =
  storage :: "'k storage"
  tree_ref :: "'k noderef"

type_synonym 'k DBDB = "'k BinaryTree"

section \<open>Storage\<close>

definition SUPERBLOCK_SIZE :: nat where
  "SUPERBLOCK_SIZE = 4096"

definition INTEGER_LENGTH :: nat where
  "INTEGER_LENGTH = 8"

definition lock :: "'k storage \<Rightarrow> bool \<times> 'k storage" where
  "lock st = (if \<not> locked st then (True, st\<lparr>locked := True\<rparr>) else (False, st))"

definition unlock :: "'k storage \<Rightarrow> 'k storage" where
  "unlock st = (if locked st then st\<lparr>locked := False\<rparr> else st)"

definition ensure_superblock :: "'k storage \<Rightarrow> 'k storage" where
  "ensure_superblock st =
     (let st1 = snd (lock st);
          end_address = eof (fobj st1);
          st2 = (if end_address < SUPERBLOCK_SIZE
                 then st1\<lparr>fobj := (fobj st1)\<lparr>eof := SUPERBLOCK_SIZE\<rparr>\<rparr>
                 else st1)
      in unlock st2)"

definition Storage_init :: "'k dbfile \<Rightarrow> 'k storage" where
  "Storage_init f = ensure_superblock \<lparr>fobj = f, closed = False, locked = False\<rparr>"

text \<open>
  \<open>len(data)\<close>: the bytes of a value are the characters of the string; the length of a
  pickle is the pickle library's, a parameter \<open>plen\<close> of everything that writes.
\<close>

fun data_len :: "(nat \<times> 'k \<times> nat \<times> nat \<Rightarrow> nat) \<Rightarrow> 'k payload \<Rightarrow> nat" where
  "data_len plen (ValueBytes s) = length s"
| "data_len plen (NodePickle l k v r) = plen (l, k, v, r)"

definition Storage_write ::
  "(nat \<times> 'k \<times> nat \<times> nat \<Rightarrow> nat) \<Rightarrow> 'k storage \<Rightarrow> 'k payload \<Rightarrow> nat \<times> 'k storage" where
  "Storage_write plen st data =
     (let st1 = snd (lock st);
          object_address = eof (fobj st1)
      in (object_address,
          st1\<lparr>fobj := (fobj st1)
            \<lparr>recs := (recs (fobj st1))(object_address \<mapsto> data),
             eof := object_address + INTEGER_LENGTH + data_len plen data\<rparr>\<rparr>))"

definition Storage_read :: "'k storage \<Rightarrow> nat \<Rightarrow> error + 'k payload" where
  "Storage_read st a = (case recs (fobj st) a of None \<Rightarrow> Inl MalformedRecord | Some d \<Rightarrow> Inr d)"

definition commit_root_address :: "'k storage \<Rightarrow> nat \<Rightarrow> 'k storage" where
  "commit_root_address st root_address =
     (let st1 = snd (lock st);
          st2 = st1\<lparr>fobj := (fobj st1)\<lparr>root := root_address\<rparr>\<rparr>
      in unlock st2)"

definition get_root_address :: "'k storage \<Rightarrow> nat" where
  "get_root_address st = root (fobj st)"

definition Storage_close :: "'k storage \<Rightarrow> 'k storage" where
  "Storage_close st = (unlock st)\<lparr>closed := True\<rparr>"

section \<open>References\<close>

text \<open>
  \<open>get\<close> of a reference returns the referent it holds, or reads and decodes the record at
  its address; a reference with neither gives \<open>None\<close>. The source also keeps the decoded
  referent in the reference. Records are never overwritten (\<open>write\<close> appends at the end of
  the file), so a later \<open>get\<close> of the same reference returns the same referent with or
  without that copy, and the model reads again instead.
\<close>

fun value_bytes_to_referent :: "'k payload \<Rightarrow> error + string" where
  "value_bytes_to_referent (ValueBytes s) = Inr s"
| "value_bytes_to_referent (NodePickle l k v r) = Inl MalformedRecord"

fun node_bytes_to_referent :: "'k payload \<Rightarrow> error + 'k node" where
  "node_bytes_to_referent (NodePickle l k v r) =
     Inr (BinaryNode (BinaryNodeRef None l) k (ValueRef None v) (BinaryNodeRef None r))"
| "node_bytes_to_referent (ValueBytes s) = Inl MalformedRecord"

definition node_referent_to_bytes :: "'k node \<Rightarrow> 'k payload" where
  "node_referent_to_bytes n =
     NodePickle (address (left_ref n)) (key n) (vaddress (value_ref n)) (address (right_ref n))"

definition ValueRef_get :: "'k storage \<Rightarrow> valueref \<Rightarrow> error + string option" where
  "ValueRef_get st r =
     (if vreferent r = None \<and> vaddress r \<noteq> 0
      then (case Storage_read st (vaddress r) of
              Inl e \<Rightarrow> Inl e
            | Inr d \<Rightarrow> (case value_bytes_to_referent d of
                          Inl e \<Rightarrow> Inl e
                        | Inr s \<Rightarrow> Inr (Some s)))
      else Inr (vreferent r))"

definition BinaryNodeRef_get :: "'k storage \<Rightarrow> 'k noderef \<Rightarrow> error + 'k node option" where
  "BinaryNodeRef_get st r =
     (if referent r = None \<and> address r \<noteq> 0
      then (case Storage_read st (address r) of
              Inl e \<Rightarrow> Inl e
            | Inr d \<Rightarrow> (case node_bytes_to_referent d of
                          Inl e \<Rightarrow> Inl e
                        | Inr n \<Rightarrow> Inr (Some n)))
      else Inr (referent r))"

definition ValueRef_store ::
  "(nat \<times> 'k \<times> nat \<times> nat \<Rightarrow> nat) \<Rightarrow> 'k storage \<Rightarrow> valueref \<Rightarrow> 'k storage \<times> valueref" where
  "ValueRef_store plen st r =
     (case vreferent r of
        Some s \<Rightarrow>
          (if vaddress r = 0
           then (let (a, st1) = Storage_write plen st (ValueBytes s) in (st1, ValueRef (Some s) a))
           else (st, r))
      | None \<Rightarrow> (st, r))"

text \<open>
  \<open>store\<close> of a node reference calls \<open>prepare_to_store\<close>, which calls \<open>store_refs\<close> of
  the node, which calls \<open>store\<close> of the three references the node holds: three frames of
  Python's stack for every level of the tree that is not yet on disk. These two functions
  are the methods on a stack that does not run out; \<open>BinaryNodeRef_store_in\<close> and
  \<open>store_refs_in\<close> below count the frames and raise \<open>RecursionError\<close>.
\<close>

fun BinaryNodeRef_store ::
    "(nat \<times> 'k \<times> nat \<times> nat \<Rightarrow> nat) \<Rightarrow> 'k storage \<Rightarrow> 'k noderef \<Rightarrow> 'k storage \<times> 'k noderef"
  and store_refs ::
    "(nat \<times> 'k \<times> nat \<times> nat \<Rightarrow> nat) \<Rightarrow> 'k storage \<Rightarrow> 'k node \<Rightarrow> 'k storage \<times> 'k node" where
  "BinaryNodeRef_store plen st (BinaryNodeRef None a) = (st, BinaryNodeRef None a)"
| "BinaryNodeRef_store plen st (BinaryNodeRef (Some n) a) =
     (if a = 0
      then (let (st1, n1) = store_refs plen st n;
                (a1, st2) = Storage_write plen st1 (node_referent_to_bytes n1)
            in (st2, BinaryNodeRef (Some n1) a1))
      else (st, BinaryNodeRef (Some n) a))"
| "store_refs plen st (BinaryNode l k v r) =
     (let (st1, v1) = ValueRef_store plen st v;
          (st2, l1) = BinaryNodeRef_store plen st1 l;
          (st3, r1) = BinaryNodeRef_store plen st2 r
      in (st3, BinaryNode l1 k v1 r1))"

section \<open>The tree\<close>

text \<open>
  A loop that follows references reads records, and nothing in the code bounds the walk
  on a file whose records point at each other in a cycle. The loops are therefore partial
  functions: \<open>None\<close> is a walk that never ends, \<open>Some (Inl e)\<close> an exception,
  \<open>Some (Inr x)\<close> a result. \<open>ebind\<close> runs the next step on a result and passes an
  exception or a walk without end on.
\<close>

definition ebind ::
  "(error + 'a) option \<Rightarrow> ('a \<Rightarrow> (error + 'b) option) \<Rightarrow> (error + 'b) option" where
  "ebind m g = Option.bind m (\<lambda>r. case r of Inl e \<Rightarrow> Some (Inl e) | Inr x \<Rightarrow> g x)"

lemma ebind_mono [partial_function_mono]:
  assumes mf: "mono_option B" and mg: "\<And>y. mono_option (\<lambda>f. C y f)"
  shows "mono_option (\<lambda>f. ebind (B f) (\<lambda>y. C y f))"
  unfolding ebind_def
proof (rule bind_mono [OF mf])
  fix y :: "error + 'c"
  show "mono_option (\<lambda>f. case y of Inl e \<Rightarrow> Some (Inl e) | Inr x \<Rightarrow> C x f)"
    by (cases y) (simp_all add: mg option.const_mono)
qed

lemma ebind_simps [simp]:
  "ebind None g = None"
  "ebind (Some (Inl e)) g = Some (Inl e)"
  "ebind (Some (Inr x)) g = g x"
  by (simp_all add: ebind_def)

definition refresh_tree_ref :: "'k BinaryTree \<Rightarrow> 'k BinaryTree" where
  "refresh_tree_ref t = t\<lparr>tree_ref := BinaryNodeRef None (get_root_address (storage t))\<rparr>"

definition BinaryTree_init :: "'k storage \<Rightarrow> 'k BinaryTree" where
  "BinaryTree_init st = refresh_tree_ref \<lparr>storage = st, tree_ref = BinaryNodeRef None 0\<rparr>"

definition follow :: "'k storage \<Rightarrow> 'k noderef \<Rightarrow> (error + 'k node option) option" where
  "follow st ref = Some (BinaryNodeRef_get st ref)"

definition follow_value :: "'k storage \<Rightarrow> valueref \<Rightarrow> (error + string option) option" where
  "follow_value st ref = Some (ValueRef_get st ref)"

text \<open>
  \<open>BinaryNode.from_node(node, **kwargs)\<close>: a keyword that is given replaces the field.
\<close>

definition from_node ::
  "'k node \<Rightarrow> 'k noderef option \<Rightarrow> 'k option \<Rightarrow> valueref option \<Rightarrow> 'k noderef option \<Rightarrow> 'k node" where
  "from_node node left_ref_kw key_kw value_ref_kw right_ref_kw =
     BinaryNode
       (case left_ref_kw of Some l \<Rightarrow> l | None \<Rightarrow> left_ref node)
       (case key_kw of Some k \<Rightarrow> k | None \<Rightarrow> key node)
       (case value_ref_kw of Some v \<Rightarrow> v | None \<Rightarrow> value_ref node)
       (case right_ref_kw of Some r \<Rightarrow> r | None \<Rightarrow> right_ref node)"

definition BinaryTree_commit ::
  "(nat \<times> 'k \<times> nat \<times> nat \<Rightarrow> nat) \<Rightarrow> 'k BinaryTree \<Rightarrow> 'k BinaryTree" where
  "BinaryTree_commit plen t =
     (let (st1, r1) = BinaryNodeRef_store plen (storage t) (tree_ref t);
          st2 = commit_root_address st1 (address r1)
      in t\<lparr>storage := st2, tree_ref := r1\<rparr>)"

text \<open>The \<open>while node is not None\<close> loop of \<open>get\<close>.\<close>

partial_function (option) get_loop ::
  "'k::linorder storage \<Rightarrow> 'k node option \<Rightarrow> 'k \<Rightarrow> (error + string option) option" where
  "get_loop st node k =
     (case node of
        None \<Rightarrow> Some (Inl KeyError)
      | Some n \<Rightarrow>
          if k < key n then ebind (follow st (left_ref n)) (\<lambda>node'. get_loop st node' k)
          else if k > key n then ebind (follow st (right_ref n)) (\<lambda>node'. get_loop st node' k)
          else follow_value st (value_ref n))"

declare get_loop.simps [code]

text \<open>
  An operation of the tree returns its result, or the exception, together with the tree
  as the call leaves it: an exception does not undo a refresh or a lock.
\<close>

definition BinaryTree_get ::
  "'k::linorder BinaryTree \<Rightarrow> 'k \<Rightarrow> ((error + string option) \<times> 'k BinaryTree) option" where
  "BinaryTree_get t k =
     (let t1 = (if \<not> locked (storage t) then refresh_tree_ref t else t)
      in map_option (\<lambda>res. (res, t1))
           (ebind (follow (storage t1) (tree_ref t1)) (\<lambda>node. get_loop (storage t1) node k)))"

text \<open>
  \<open>_insert\<close> calls itself once for every level of the tree on the way to the key. This
  function is the method on a stack that does not run out; \<open>BinaryTree_insert_in\<close> below
  counts the frames and raises \<open>RecursionError\<close>.
\<close>

partial_function (option) BinaryTree_insert ::
  "'k::linorder storage \<Rightarrow> 'k node option \<Rightarrow> 'k \<Rightarrow> valueref \<Rightarrow> (error + 'k noderef) option" where
  "BinaryTree_insert st node k value_ref' =
     (case node of
        None \<Rightarrow>
          Some (Inr (BinaryNodeRef
            (Some (BinaryNode (BinaryNodeRef None 0) k value_ref' (BinaryNodeRef None 0))) 0))
      | Some n \<Rightarrow>
          if k < key n then
            ebind (follow st (left_ref n)) (\<lambda>l.
            ebind (BinaryTree_insert st l k value_ref') (\<lambda>new_left.
              Some (Inr (BinaryNodeRef (Some (from_node n (Some new_left) None None None)) 0))))
          else if k > key n then
            ebind (follow st (right_ref n)) (\<lambda>r.
            ebind (BinaryTree_insert st r k value_ref') (\<lambda>new_right.
              Some (Inr (BinaryNodeRef (Some (from_node n None None None (Some new_right))) 0))))
          else
            Some (Inr (BinaryNodeRef (Some (from_node n None None (Some value_ref') None)) 0)))"

declare BinaryTree_insert.simps [code]

definition BinaryTree_set ::
  "'k::linorder BinaryTree \<Rightarrow> 'k \<Rightarrow> string \<Rightarrow> ((error + unit) \<times> 'k BinaryTree) option" where
  "BinaryTree_set t k v =
     (let (acquired, st1) = lock (storage t);
          t1 = t\<lparr>storage := st1\<rparr>;
          t2 = (if acquired then refresh_tree_ref t1 else t1)
      in case ebind (follow (storage t2) (tree_ref t2))
                (\<lambda>node. BinaryTree_insert (storage t2) node k (ValueRef (Some v) 0)) of
           None \<Rightarrow> None
         | Some (Inl e) \<Rightarrow> Some (Inl e, t2)
         | Some (Inr new_ref) \<Rightarrow> Some (Inr (), t2\<lparr>tree_ref := new_ref\<rparr>))"

text \<open>
  \<open>get_min\<close> reads \<open>node.left_ref\<close> before it looks at \<open>node\<close>: on a root that is
  \<open>None\<close> this is Python's \<open>AttributeError\<close>.
\<close>

partial_function (option) get_min_loop ::
  "'k storage \<Rightarrow> 'k node \<Rightarrow> (error + string option) option" where
  "get_min_loop st node =
     ebind (follow st (left_ref node)) (\<lambda>next_node.
       case next_node of
         None \<Rightarrow> follow_value st (value_ref node)
       | Some n \<Rightarrow> get_min_loop st n)"

declare get_min_loop.simps [code]

definition BinaryTree_get_min ::
  "'k BinaryTree \<Rightarrow> ((error + string option) \<times> 'k BinaryTree) option" where
  "BinaryTree_get_min t =
     map_option (\<lambda>res. (res, t))
       (ebind (follow (storage t) (tree_ref t)) (\<lambda>node.
          case node of
            None \<Rightarrow> Some (Inl (AttributeError ''NoneType'' ''left_ref''))
          | Some n \<Rightarrow> get_min_loop (storage t) n))"

text \<open>
  \<open>get_left\<close> and \<open>get_right\<close> search as \<open>get\<close> does and then read \<open>key\<close> of the
  child they followed, without a test for \<open>None\<close>.
\<close>

definition child_pair ::
  "'k storage \<Rightarrow> 'k node option \<Rightarrow> (error + 'k \<times> string option) option" where
  "child_pair st child =
     (case child of
        None \<Rightarrow> Some (Inl (AttributeError ''NoneType'' ''key''))
      | Some c \<Rightarrow> ebind (follow_value st (value_ref c)) (\<lambda>v. Some (Inr (key c, v))))"

partial_function (option) get_left_loop ::
  "'k::linorder storage \<Rightarrow> 'k node option \<Rightarrow> 'k \<Rightarrow> (error + 'k \<times> string option) option" where
  "get_left_loop st node k =
     (case node of
        None \<Rightarrow> Some (Inl KeyError)
      | Some n \<Rightarrow>
          if k < key n then ebind (follow st (left_ref n)) (\<lambda>node'. get_left_loop st node' k)
          else if k > key n then ebind (follow st (right_ref n)) (\<lambda>node'. get_left_loop st node' k)
          else ebind (follow st (left_ref n)) (\<lambda>node_left. child_pair st node_left))"

declare get_left_loop.simps [code]

definition BinaryTree_get_left ::
  "'k::linorder BinaryTree \<Rightarrow> 'k \<Rightarrow> ((error + 'k \<times> string option) \<times> 'k BinaryTree) option" where
  "BinaryTree_get_left t k =
     (let t1 = (if \<not> locked (storage t) then refresh_tree_ref t else t)
      in map_option (\<lambda>res. (res, t1))
           (ebind (follow (storage t1) (tree_ref t1)) (\<lambda>node. get_left_loop (storage t1) node k)))"

partial_function (option) get_right_loop ::
  "'k::linorder storage \<Rightarrow> 'k node option \<Rightarrow> 'k \<Rightarrow> (error + 'k \<times> string option) option" where
  "get_right_loop st node k =
     (case node of
        None \<Rightarrow> Some (Inl KeyError)
      | Some n \<Rightarrow>
          if k < key n then ebind (follow st (left_ref n)) (\<lambda>node'. get_right_loop st node' k)
          else if k > key n then ebind (follow st (right_ref n)) (\<lambda>node'. get_right_loop st node' k)
          else ebind (follow st (right_ref n)) (\<lambda>node_right. child_pair st node_right))"

declare get_right_loop.simps [code]

definition BinaryTree_get_right ::
  "'k::linorder BinaryTree \<Rightarrow> 'k \<Rightarrow> ((error + 'k \<times> string option) \<times> 'k BinaryTree) option" where
  "BinaryTree_get_right t k =
     (let t1 = (if \<not> locked (storage t) then refresh_tree_ref t else t)
      in map_option (\<lambda>res. (res, t1))
           (ebind (follow (storage t1) (tree_ref t1)) (\<lambda>node. get_right_loop (storage t1) node k)))"

text \<open>\<open>traverse_enclosed\<close>, returning what it appends to \<open>out_global\<close>.\<close>

partial_function (option) traverse_in_order ::
  "'k storage \<Rightarrow> 'k node option \<Rightarrow> (error + ('k \<times> string option) list) option" where
  "traverse_in_order st node =
     (case node of
        None \<Rightarrow> Some (Inr [])
      | Some n \<Rightarrow>
          ebind (follow st (left_ref n)) (\<lambda>l.
          ebind (traverse_in_order st l) (\<lambda>out_left.
          ebind (follow_value st (value_ref n)) (\<lambda>v.
          ebind (follow st (right_ref n)) (\<lambda>r.
          ebind (traverse_in_order st r) (\<lambda>out_right.
            Some (Inr (out_left @ [(key n, v)] @ out_right))))))))"

declare traverse_in_order.simps [code]

text \<open>
  The \<open>while\<close> loop of \<open>chop\<close>, with the two variables it assigns: \<open>nodes_to_expand\<close>
  and \<open>parent_node\<close>, which is unbound (\<open>None\<close> here) until the body has run once.
\<close>

partial_function (option) chop_loop ::
  "'k::linorder storage \<Rightarrow> 'k node option \<Rightarrow> 'k \<Rightarrow> 'k node list \<Rightarrow> 'k node option
     \<Rightarrow> (error + 'k node list \<times> 'k node option) option" where
  "chop_loop st node chop_key nodes_to_expand parent_node =
     (case node of
        None \<Rightarrow> Some (Inr (nodes_to_expand, parent_node))
      | Some n \<Rightarrow>
          if chop_key < key n then
            ebind (follow st (left_ref n)) (\<lambda>node'.
              chop_loop st node' chop_key nodes_to_expand (Some n))
          else if chop_key > key n then
            ebind (follow st (right_ref n)) (\<lambda>right.
            ebind (follow st (right_ref n)) (\<lambda>node'.
              chop_loop st node' chop_key
                (if right \<noteq> None then nodes_to_expand @ [n] else nodes_to_expand) (Some n)))
          else chop_loop st None chop_key nodes_to_expand (Some n))"

declare chop_loop.simps [code]

text \<open>The \<open>for node in nodes_to_expand\<close> loop of \<open>chop\<close>.\<close>

fun chop_expand ::
  "'k::linorder storage \<Rightarrow> 'k node list \<Rightarrow> 'k \<Rightarrow> ('k \<times> string option) list
     \<Rightarrow> (error + ('k \<times> string option) list) option" where
  "chop_expand st [] chop_key out = Some (Inr out)"
| "chop_expand st (n # nodes) chop_key out =
     ebind (if key n \<le> chop_key
            then ebind (follow_value st (value_ref n)) (\<lambda>v. Some (Inr (out @ [(key n, v)])))
            else Some (Inr out)) (\<lambda>out1.
     ebind (follow st (left_ref n)) (\<lambda>l.
     ebind (traverse_in_order st l) (\<lambda>sub.
       chop_expand st nodes chop_key (out1 @ sub))))"

definition BinaryTree_chop ::
  "'k::linorder BinaryTree \<Rightarrow> 'k
     \<Rightarrow> ((error + ('k \<times> string option) list) \<times> 'k BinaryTree) option" where
  "BinaryTree_chop t chop_key =
     (let t1 = (if \<not> locked (storage t) then refresh_tree_ref t else t)
      in map_option (\<lambda>res. (res, t1))
           (ebind (follow (storage t1) (tree_ref t1)) (\<lambda>node.
            ebind (chop_loop (storage t1) node chop_key [] None) (\<lambda>(nodes_to_expand, parent_node).
              case parent_node of
                None \<Rightarrow> Some (Inl (UnboundLocalError ''parent_node''))
              | Some p \<Rightarrow> chop_expand (storage t1) (nodes_to_expand @ [p]) chop_key []))))"

section \<open>The database\<close>

text \<open>
  Every method of \<open>DBDB\<close> but \<open>close\<close> starts with \<open>_assert_not_closed\<close>. \<open>BinaryTree\<close>
  has no method \<open>delete\<close> (it is commented out), so \<open>DBDB.delete\<close> ends in the
  \<open>AttributeError\<close> of the lookup of that name.
\<close>

definition assert_not_closed :: "'k DBDB \<Rightarrow> error option" where
  "assert_not_closed db =
     (if closed (storage db) then Some (ValueError ''Database closed.'') else None)"

definition DBDB_init :: "'k dbfile \<Rightarrow> 'k DBDB" where
  "DBDB_init f = BinaryTree_init (Storage_init f)"

definition DBDB_close :: "'k DBDB \<Rightarrow> (error + unit) \<times> 'k DBDB" where
  "DBDB_close db = (Inr (), db\<lparr>storage := Storage_close (storage db)\<rparr>)"

definition DBDB_commit ::
  "(nat \<times> 'k \<times> nat \<times> nat \<Rightarrow> nat) \<Rightarrow> 'k DBDB \<Rightarrow> (error + unit) \<times> 'k DBDB" where
  "DBDB_commit plen db =
     (case assert_not_closed db of
        Some e \<Rightarrow> (Inl e, db)
      | None \<Rightarrow> (Inr (), BinaryTree_commit plen db))"

definition DBDB_get ::
  "'k::linorder DBDB \<Rightarrow> 'k \<Rightarrow> ((error + string option) \<times> 'k DBDB) option" where
  "DBDB_get db k =
     (case assert_not_closed db of
        Some e \<Rightarrow> Some (Inl e, db)
      | None \<Rightarrow> BinaryTree_get db k)"

definition DBDB_set ::
  "'k::linorder DBDB \<Rightarrow> 'k \<Rightarrow> string \<Rightarrow> ((error + unit) \<times> 'k DBDB) option" where
  "DBDB_set db k v =
     (case assert_not_closed db of
        Some e \<Rightarrow> Some (Inl e, db)
      | None \<Rightarrow> BinaryTree_set db k v)"

definition DBDB_delete :: "'k DBDB \<Rightarrow> 'k \<Rightarrow> (error + unit) \<times> 'k DBDB" where
  "DBDB_delete db k =
     (case assert_not_closed db of
        Some e \<Rightarrow> (Inl e, db)
      | None \<Rightarrow> (Inl (AttributeError ''BinaryTree'' ''delete''), db))"

definition DBDB_get_min ::
  "'k DBDB \<Rightarrow> ((error + string option) \<times> 'k DBDB) option" where
  "DBDB_get_min db =
     (case assert_not_closed db of
        Some e \<Rightarrow> Some (Inl e, db)
      | None \<Rightarrow> BinaryTree_get_min db)"

definition DBDB_get_left ::
  "'k::linorder DBDB \<Rightarrow> 'k \<Rightarrow> ((error + 'k \<times> string option) \<times> 'k DBDB) option" where
  "DBDB_get_left db k =
     (case assert_not_closed db of
        Some e \<Rightarrow> Some (Inl e, db)
      | None \<Rightarrow> BinaryTree_get_left db k)"

definition DBDB_get_right ::
  "'k::linorder DBDB \<Rightarrow> 'k \<Rightarrow> ((error + 'k \<times> string option) \<times> 'k DBDB) option" where
  "DBDB_get_right db k =
     (case assert_not_closed db of
        Some e \<Rightarrow> Some (Inl e, db)
      | None \<Rightarrow> BinaryTree_get_right db k)"

definition DBDB_chop ::
  "'k::linorder DBDB \<Rightarrow> 'k \<Rightarrow> ((error + ('k \<times> string option) list) \<times> 'k DBDB) option" where
  "DBDB_chop db chop_key =
     (case assert_not_closed db of
        Some e \<Rightarrow> Some (Inl e, db)
      | None \<Rightarrow> BinaryTree_chop db chop_key)"

text \<open>
  \<open>connect\<close> opens the file of that name, or creates it empty, and builds the database
  on it. The argument here is the file as it stands on disk; \<open>new_file\<close> is the file
  that \<open>os.open\<close> with \<open>O_CREAT\<close> creates.
\<close>

definition new_file :: "'k dbfile" where
  "new_file = \<lparr>root = 0, recs = Map.empty, eof = 0\<rparr>"

definition connect :: "'k dbfile \<Rightarrow> 'k DBDB" where
  "connect f = DBDB_init f"

text \<open>
  The loop of the source's own test, \<open>for key, val in input_data: db.set(key, val)\<close>:
  an exception ends it.
\<close>

fun DBDB_set_all ::
  "'k::linorder DBDB \<Rightarrow> ('k \<times> string) list \<Rightarrow> ((error + unit) \<times> 'k DBDB) option" where
  "DBDB_set_all db [] = Some (Inr (), db)"
| "DBDB_set_all db ((k, v) # kvs) =
     Option.bind (DBDB_set db k v) (\<lambda>(res, db').
       case res of Inl e \<Rightarrow> Some (Inl e, db') | Inr u \<Rightarrow> DBDB_set_all db' kvs)"

section \<open>The recursion limit\<close>











section \<open>What a reference stands for\<close>

text \<open>
  The claims speak of the tree of keys and values that a reference leads to. That tree
  is read off the references and the records: \<open>denotes st ref t\<close> holds when following
  \<open>ref\<close> in the storage \<open>st\<close>, through referents held in memory and through records
  on disk, spells out exactly the tree \<open>t\<close> of pairs of a key and a value. A reference
  that holds a referent and an address (it has been stored) must have on disk the record
  of what it holds. A file whose records point at each other in a cycle denotes no tree.
\<close>

definition value_is :: "'k storage \<Rightarrow> valueref \<Rightarrow> string option \<Rightarrow> bool" where
  "value_is st r v \<longleftrightarrow>
     (if vaddress r = 0 then v = vreferent r
      else (\<exists>s. recs (fobj st) (vaddress r) = Some (ValueBytes s) \<and> v = Some s \<and>
                (vreferent r = None \<or> vreferent r = Some s)))"

inductive denotes :: "'k storage \<Rightarrow> 'k noderef \<Rightarrow> ('k \<times> string option) tree \<Rightarrow> bool"
  for st :: "'k storage" where
  null: "denotes st (BinaryNodeRef None 0) Leaf"
| disk: "a \<noteq> 0 \<Longrightarrow> recs (fobj st) a = Some (NodePickle l k v r) \<Longrightarrow>
         denotes st (BinaryNodeRef None l) lt \<Longrightarrow> value_is st (ValueRef None v) val \<Longrightarrow>
         denotes st (BinaryNodeRef None r) rt \<Longrightarrow>
         denotes st (BinaryNodeRef None a) (Node lt (k, val) rt)"
| dirty: "denotes st (left_ref n) lt \<Longrightarrow> value_is st (value_ref n) val \<Longrightarrow>
          denotes st (right_ref n) rt \<Longrightarrow>
          denotes st (BinaryNodeRef (Some n) 0) (Node lt (key n, val) rt)"
| clean: "a \<noteq> 0 \<Longrightarrow> denotes st (left_ref n) lt \<Longrightarrow> value_is st (value_ref n) val \<Longrightarrow>
          denotes st (right_ref n) rt \<Longrightarrow>
          denotes st (BinaryNodeRef None a) (Node lt (key n, val) rt) \<Longrightarrow>
          denotes st (BinaryNodeRef (Some n) a) (Node lt (key n, val) rt)"

definition node_is :: "'k storage \<Rightarrow> 'k node \<Rightarrow> ('k \<times> string option) tree \<Rightarrow> bool" where
  "node_is st n t \<longleftrightarrow>
     (\<exists>lt val rt. t = Node lt (key n, val) rt \<and> denotes st (left_ref n) lt \<and>
        value_is st (value_ref n) val \<and> denotes st (right_ref n) rt)"

definition opt_is :: "'k storage \<Rightarrow> 'k node option \<Rightarrow> ('k \<times> string option) tree \<Rightarrow> bool" where
  "opt_is st node t \<longleftrightarrow> (case node of None \<Rightarrow> t = Leaf | Some n \<Rightarrow> node_is st n t)"

text \<open>
  The records of a well-formed storage lie below the end of the file, and the file
  has its superblock. \<open>extends\<close> is what a write does to the file: records are added,
  none is changed, and the root address stays.
\<close>

definition wf_storage :: "'k storage \<Rightarrow> bool" where
  "wf_storage st \<longleftrightarrow>
     SUPERBLOCK_SIZE \<le> eof (fobj st) \<and>
     (\<forall>a. recs (fobj st) a \<noteq> None \<longrightarrow> a < eof (fobj st))"

definition extends :: "'k storage \<Rightarrow> 'k storage \<Rightarrow> bool" where
  "extends st st' \<longleftrightarrow>
     recs (fobj st) \<subseteq>\<^sub>m recs (fobj st') \<and> root (fobj st') = root (fobj st) \<and>
     closed st' = closed st"

definition stored_ok ::
  "(nat \<times> 'k \<times> nat \<times> nat \<Rightarrow> nat) \<Rightarrow> 'k storage \<Rightarrow> 'k noderef \<Rightarrow> ('k \<times> string option) tree \<Rightarrow> bool" where
  "stored_ok plen st ref t \<longleftrightarrow>
     (case BinaryNodeRef_store plen st ref of
        (st', ref') \<Rightarrow> denotes st' ref' t \<and> denotes st' (BinaryNodeRef None (address ref')) t \<and>
          wf_storage st' \<and> extends st st')"

text \<open>
  The operations of a binary search tree on the tree of pairs, against which the
  code is compared: lookup, insertion, the leftmost pair, the subtree whose root holds a
  key, the pair at the root of a child, and the search order.
\<close>

fun spec_lookup :: "('k::linorder \<times> 'v) tree \<Rightarrow> 'k \<Rightarrow> 'v option" where
  "spec_lookup Leaf k = None"
| "spec_lookup (Node l (a, v) r) k =
     (if k < a then spec_lookup l k else if a < k then spec_lookup r k else Some v)"

fun spec_insert :: "'k::linorder \<Rightarrow> 'v \<Rightarrow> ('k \<times> 'v) tree \<Rightarrow> ('k \<times> 'v) tree" where
  "spec_insert k v Leaf = Node Leaf (k, v) Leaf"
| "spec_insert k v (Node l (a, w) r) =
     (if k < a then Node (spec_insert k v l) (a, w) r
      else if a < k then Node l (a, w) (spec_insert k v r)
      else Node l (a, v) r)"

fun spec_min :: "'a tree \<Rightarrow> 'a option" where
  "spec_min Leaf = None"
| "spec_min (Node l x r) = (case spec_min l of None \<Rightarrow> Some x | Some m \<Rightarrow> Some m)"

fun spec_find :: "('k::linorder \<times> 'v) tree \<Rightarrow> 'k \<Rightarrow> ('k \<times> 'v) tree option" where
  "spec_find Leaf k = None"
| "spec_find (Node l (a, v) r) k =
     (if k < a then spec_find l k else if a < k then spec_find r k else Some (Node l (a, v) r))"

fun spec_child :: "('k \<times> 'v) tree \<Rightarrow> error + 'k \<times> 'v" where
  "spec_child Leaf = Inl (AttributeError ''NoneType'' ''key'')"
| "spec_child (Node l x r) = Inr x"

fun ordered :: "('k::linorder \<times> 'v) tree \<Rightarrow> bool" where
  "ordered Leaf = True"
| "ordered (Node l (a, v) r) =
     ((\<forall>k \<in> fst ` set_tree l. k < a) \<and> (\<forall>k \<in> fst ` set_tree r. a < k) \<and> ordered l \<and> ordered r)"

text \<open>
  \<open>chop\<close> on the tree of pairs: the subtrees whose roots the loop collects, what the
  second loop appends for each of them, and the whole result.
\<close>

fun spec_chop_path :: "('k::linorder \<times> 'v) tree \<Rightarrow> 'k \<Rightarrow> ('k \<times> 'v) tree list" where
  "spec_chop_path Leaf ck = []"
| "spec_chop_path (Node l (a, v) r) ck =
     (if ck < a then (if l = Leaf then [Node l (a, v) r] else spec_chop_path l ck)
      else if a < ck then
        (if r = Leaf then [Node l (a, v) r] else Node l (a, v) r # spec_chop_path r ck)
      else [Node l (a, v) r])"

fun spec_expand :: "'k::linorder \<Rightarrow> ('k \<times> 'v) tree \<Rightarrow> ('k \<times> 'v) list" where
  "spec_expand ck Leaf = []"
| "spec_expand ck (Node l (a, v) r) = (if a \<le> ck then [(a, v)] else []) @ inorder l"

definition spec_chop :: "('k::linorder \<times> 'v) tree \<Rightarrow> 'k \<Rightarrow> ('k \<times> 'v) list" where
  "spec_chop t ck = concat (map (spec_expand ck) (spec_chop_path t ck))"

text \<open>
  \<open>db_state db t t0\<close>: the database is open, its tree reference denotes \<open>t\<close>, and the
  root address in the file denotes \<open>t0\<close>, the tree of the last commit; both are search
  trees, and they are the same tree unless this handle holds the lock (it holds it from
  its first \<open>set\<close> to its next \<open>commit\<close>). \<open>current\<close> is the database after the
  refresh that \<open>get\<close>, \<open>get_left\<close>, \<open>get_right\<close> and \<open>chop\<close> start with.
\<close>

definition db_state ::
  "'k::linorder DBDB \<Rightarrow> ('k \<times> string option) tree \<Rightarrow> ('k \<times> string option) tree \<Rightarrow> bool" where
  "db_state db t t0 \<longleftrightarrow>
     \<not> closed (storage db) \<and> wf_storage (storage db) \<and>
     denotes (storage db) (tree_ref db) t \<and>
     denotes (storage db) (BinaryNodeRef None (root (fobj (storage db)))) t0 \<and>
     ordered t \<and> ordered t0 \<and> (locked (storage db) \<or> t = t0)"

definition current :: "'k DBDB \<Rightarrow> 'k DBDB" where
  "current db = (if \<not> locked (storage db) then refresh_tree_ref db else db)"

text \<open>
  The open databases that calls can lead to from a new file. \<open>get_min\<close> and
  \<open>delete\<close> return the database as they found it; \<open>close\<close> ends the handle, and
  \<open>connect\<close> on its file gives the next one.
\<close>

inductive reachable :: "'k::linorder DBDB \<Rightarrow> bool" where
  new: "reachable (connect new_file)"
| set: "reachable db \<Longrightarrow> DBDB_set db k v = Some (res_u, db') \<Longrightarrow> reachable db'"
| commit: "reachable db \<Longrightarrow> DBDB_commit plen db = (res_u, db') \<Longrightarrow> reachable db'"
| get: "reachable db \<Longrightarrow> DBDB_get db k = Some (res_v, db') \<Longrightarrow> reachable db'"
| get_left: "reachable db \<Longrightarrow> DBDB_get_left db k = Some (res_p, db') \<Longrightarrow> reachable db'"
| get_right: "reachable db \<Longrightarrow> DBDB_get_right db k = Some (res_p, db') \<Longrightarrow> reachable db'"
| chop: "reachable db \<Longrightarrow> DBDB_chop db k = Some (res_l, db') \<Longrightarrow> reachable db'"
| reopen: "reachable db \<Longrightarrow> reachable (connect (fobj (storage (snd (DBDB_close db)))))"




section \<open>Lemmas\<close>

text \<open>
  What the references denote is what the code reads: each loop of the tree, run on a
  reference that denotes a tree, ends and returns what the operation on that tree gives.
  Storing a reference keeps what it denotes and leaves its record on disk; \<open>set\<close> and
  \<open>commit\<close> keep \<open>db_state\<close>, with the tree that insertion, respectively the
  commit, gives.
\<close>

lemma value_is_get: "value_is st r v \<Longrightarrow> ValueRef_get st r = Inr v"
  by (cases r) (auto simp: value_is_def ValueRef_get_def Storage_read_def split: if_splits)

lemma denotes_get:
  "denotes st ref t \<Longrightarrow> \<exists>node. BinaryNodeRef_get st ref = Inr node \<and> opt_is st node t"
proof (induction rule: denotes.induct)
  case null
  show ?case by (simp add: BinaryNodeRef_get_def opt_is_def)
next
  case (disk a l k v r lt val rt)
  then show ?case
    by (simp add: BinaryNodeRef_get_def Storage_read_def opt_is_def node_is_def)
next
  case (dirty n lt val rt)
  then show ?case by (auto simp add: BinaryNodeRef_get_def opt_is_def node_is_def)
next
  case (clean a n lt val rt)
  then show ?case by (auto simp add: BinaryNodeRef_get_def opt_is_def node_is_def)
qed

lemma denotes_follow:
  "denotes st ref t \<Longrightarrow> \<exists>node. follow st ref = Some (Inr node) \<and> opt_is st node t"
  unfolding follow_def using denotes_get by blast

lemma value_is_follow: "value_is st r v \<Longrightarrow> follow_value st r = Some (Inr v)"
  by (simp add: follow_value_def value_is_get)

lemma map_le_Some: "m \<subseteq>\<^sub>m m' \<Longrightarrow> m a = Some x \<Longrightarrow> m' a = Some x"
  by (metis domI map_le_def)

lemma value_is_mono:
  assumes "value_is st r v" and le: "recs (fobj st) \<subseteq>\<^sub>m recs (fobj st')"
  shows "value_is st' r v"
proof (cases "vaddress r = 0")
  case True
  with assms show ?thesis by (simp add: value_is_def)
next
  case False
  with assms(1) obtain s where s: "recs (fobj st) (vaddress r) = Some (ValueBytes s)"
    "v = Some s" "vreferent r = None \<or> vreferent r = Some s"
    by (auto simp: value_is_def)
  from map_le_Some [OF le s(1)] s(2,3) False show ?thesis
    by (simp add: value_is_def)
qed

lemma denotes_mono:
  assumes "denotes st ref t" and le: "recs (fobj st) \<subseteq>\<^sub>m recs (fobj st')"
  shows "denotes st' ref t"
  using assms(1)
proof (induction rule: denotes.induct)
  case null
  show ?case by (rule denotes.null)
next
  case (disk a l k v r lt val rt)
  show ?case
    by (rule denotes.disk [OF disk.hyps(1) map_le_Some [OF le disk.hyps(2)] disk.IH(1)
          value_is_mono [OF disk.hyps(4) le] disk.IH(2)])
next
  case (dirty n lt val rt)
  show ?case
    by (rule denotes.dirty [OF dirty.IH(1) value_is_mono [OF dirty.hyps(2) le] dirty.IH(2)])
next
  case (clean a n lt val rt)
  show ?case
    by (rule denotes.clean [OF clean.hyps(1) clean.IH(1) value_is_mono [OF clean.hyps(3) le]
          clean.IH(2) clean.IH(3)])
qed

lemma value_is_fun: "value_is st r v \<Longrightarrow> value_is st r v' \<Longrightarrow> v = v'"
  by (drule value_is_get)+ simp

lemma denotes_fun: "denotes st ref t \<Longrightarrow> denotes st ref t' \<Longrightarrow> t = t'"
proof (induction arbitrary: t' rule: denotes.induct)
  case null
  then show ?case by (auto elim: denotes.cases)
next
  case (disk a l k v r lt val rt)
  from disk.prems disk.hyps(1,2,4) show ?case
    by (cases rule: denotes.cases) (auto dest: disk.IH value_is_fun)
next
  case (dirty n lt val rt)
  from dirty.prems dirty.hyps(2) show ?case
    by (cases rule: denotes.cases) (auto dest: dirty.IH value_is_fun)
next
  case (clean a n lt val rt)
  from clean.prems clean.hyps(1,3) show ?case
    by (cases rule: denotes.cases) (auto dest: clean.IH value_is_fun)
qed

lemma extends_refl: "extends st st"
  by (simp add: extends_def)

lemma extends_trans: "extends s1 s2 \<Longrightarrow> extends s2 s3 \<Longrightarrow> extends s1 s3"
  by (auto simp: extends_def intro: map_le_trans)

lemma Storage_write_props:
  assumes "wf_storage st" and "Storage_write plen st d = (a, st')"
  shows "a \<noteq> 0" and "recs (fobj st') a = Some d" and "wf_storage st'" and "extends st st'"
proof -
  have a: "a = eof (fobj st)" and
    st': "st' = (snd (lock st))\<lparr>fobj := (fobj st)\<lparr>recs := (recs (fobj st))(a \<mapsto> d),
            eof := a + INTEGER_LENGTH + data_len plen d\<rparr>\<rparr>"
    using assms(2) by (auto simp: Storage_write_def lock_def Let_def split: if_splits)
  from assms(1) a show "a \<noteq> 0" by (simp add: wf_storage_def SUPERBLOCK_SIZE_def)
  show "recs (fobj st') a = Some d" by (simp add: st')
  from assms(1) a show "wf_storage st'"
    by (fastforce simp: st' wf_storage_def INTEGER_LENGTH_def)
  from assms(1) a show "extends st st'"
    by (auto simp: st' extends_def wf_storage_def map_le_def lock_def)
qed

lemma ValueRef_store_props:
  assumes wf: "wf_storage st" and v: "value_is st r v"
    and s: "ValueRef_store plen st r = (st', r')"
  shows "value_is st' r' v" and "value_is st' (ValueRef None (vaddress r')) v"
    and "wf_storage st'" and "extends st st'"
proof -
  have "value_is st' r' v \<and> value_is st' (ValueRef None (vaddress r')) v \<and>
      wf_storage st' \<and> extends st st'"
  proof (cases "vreferent r \<noteq> None \<and> vaddress r = 0")
    case True
    then obtain str where str: "vreferent r = Some str" by auto
    obtain a where w: "Storage_write plen st (ValueBytes str) = (a, st')"
      and r': "r' = ValueRef (Some str) a"
      using s True str by (auto simp: ValueRef_store_def split: prod.splits)
    note p = Storage_write_props [OF wf w]
    from v True str have "v = Some str" by (simp add: value_is_def)
    with p r' show ?thesis by (simp add: value_is_def)
  next
    case False
    then have eq: "st' = st" "r' = r"
      using s by (auto simp: ValueRef_store_def split: option.splits if_splits)
    from v False have "value_is st (ValueRef None (vaddress r)) v"
      by (auto simp: value_is_def)
    with v wf eq show ?thesis by (simp add: extends_refl)
  qed
  then show "value_is st' r' v" and "value_is st' (ValueRef None (vaddress r')) v"
    and "wf_storage st'" and "extends st st'" by simp_all
qed

lemma stored_okI_noop:
  assumes "BinaryNodeRef_store plen st ref = (st, ref)" and "denotes st ref t"
    and "denotes st (BinaryNodeRef None (address ref)) t" and "wf_storage st"
  shows "stored_ok plen st ref t"
  using assms by (simp add: stored_ok_def extends_refl)

lemma store_denotes:
  assumes "denotes st ref t"
  shows "wf_storage st1 \<Longrightarrow> recs (fobj st) \<subseteq>\<^sub>m recs (fobj st1) \<Longrightarrow> stored_ok plen st1 ref t"
  using assms
proof (induction arbitrary: st1 rule: denotes.induct)
  case null
  show ?case
    by (rule stored_okI_noop) (simp_all add: denotes.null null.prems)
next
  case (disk a l k v r lt val rt)
  have "denotes st (BinaryNodeRef None a) \<langle>lt, (k, val), rt\<rangle>"
    by (rule denotes.disk) (use disk.hyps in auto)
  then have "denotes st1 (BinaryNodeRef None a) \<langle>lt, (k, val), rt\<rangle>"
    by (rule denotes_mono) (rule disk.prems)
  then show ?case
    by (intro stored_okI_noop) (simp_all add: disk.prems)
next
  case (clean a n lt val rt)
  have "denotes st (BinaryNodeRef (Some n) a) \<langle>lt, (key n, val), rt\<rangle>"
    by (rule denotes.clean) (use clean.hyps in auto)
  then have 1: "denotes st1 (BinaryNodeRef (Some n) a) \<langle>lt, (key n, val), rt\<rangle>"
    by (rule denotes_mono) (rule clean.prems)
  have 2: "denotes st1 (BinaryNodeRef None a) \<langle>lt, (key n, val), rt\<rangle>"
    by (rule denotes_mono [OF clean.hyps(5)]) (rule clean.prems)
  from 1 2 clean.hyps(1) show ?case
    by (intro stored_okI_noop) (simp_all add: clean.prems)
next
  case (dirty n lt val rt)
  obtain l k v r where n: "n = BinaryNode l k v r" by (cases n)
  obtain sa v1 where sv: "ValueRef_store plen st1 v = (sa, v1)" by force
  obtain sb l1 where sl: "BinaryNodeRef_store plen sa l = (sb, l1)" by force
  obtain sc r1 where sr: "BinaryNodeRef_store plen sb r = (sc, r1)" by force
  define n1 where "n1 = BinaryNode l1 k v1 r1"
  obtain a1 sd where w: "Storage_write plen sc (node_referent_to_bytes n1) = (a1, sd)" by force
  have res: "BinaryNodeRef_store plen st1 (BinaryNodeRef (Some n) 0) = (sd, BinaryNodeRef (Some n1) a1)"
    using w unfolding n1_def by (simp add: n sv sl sr)
  have "value_is st1 v val"
    using value_is_mono [OF dirty.hyps(2) dirty.prems(2)] by (simp add: n)
  note pv = ValueRef_store_props [OF dirty.prems(1) this sv]
  have le_a: "recs (fobj st) \<subseteq>\<^sub>m recs (fobj sa)"
    using dirty.prems(2) pv(4) by (auto simp: extends_def intro: map_le_trans)
  have "stored_ok plen sa l lt" using dirty.IH(1) [OF pv(3) le_a] by (simp add: n)
  then have pl: "denotes sb l1 lt" "denotes sb (BinaryNodeRef None (address l1)) lt"
    "wf_storage sb" "extends sa sb"
    by (simp_all add: stored_ok_def sl)
  have le_b: "recs (fobj st) \<subseteq>\<^sub>m recs (fobj sb)"
    using le_a pl(4) by (auto simp: extends_def intro: map_le_trans)
  have "stored_ok plen sb r rt" using dirty.IH(2) [OF pl(3) le_b] by (simp add: n)
  then have pr: "denotes sc r1 rt" "denotes sc (BinaryNodeRef None (address r1)) rt"
    "wf_storage sc" "extends sb sc"
    by (simp_all add: stored_ok_def sr)
  note pw = Storage_write_props [OF pr(3) w]
  have le_bd: "recs (fobj sb) \<subseteq>\<^sub>m recs (fobj sd)" and le_cd: "recs (fobj sc) \<subseteq>\<^sub>m recs (fobj sd)"
    and le_ad: "recs (fobj sa) \<subseteq>\<^sub>m recs (fobj sd)"
    using pl(4) pr(4) pw(4) by (auto simp: extends_def intro: map_le_trans)
  have dl: "denotes sd l1 lt" "denotes sd (BinaryNodeRef None (address l1)) lt"
    using pl(1,2) le_bd by (auto intro: denotes_mono)
  have dr: "denotes sd r1 rt" "denotes sd (BinaryNodeRef None (address r1)) rt"
    using pr(1,2) le_cd by (auto intro: denotes_mono)
  have dv: "value_is sd v1 val" "value_is sd (ValueRef None (vaddress v1)) val"
    using pv(1,2) le_ad by (auto intro: value_is_mono)
  have rec: "recs (fobj sd) a1 = Some (NodePickle (address l1) k (vaddress v1) (address r1))"
    using pw(2) by (simp add: node_referent_to_bytes_def n1_def)
  have kn: "key n = k" by (simp add: n)
  have d1: "denotes sd (BinaryNodeRef None a1) \<langle>lt, (k, val), rt\<rangle>"
    by (rule denotes.disk [OF pw(1) rec dl(2) dv(2) dr(2)])
  have d2: "denotes sd (BinaryNodeRef (Some n1) a1) \<langle>lt, (key n1, val), rt\<rangle>"
    by (rule denotes.clean [OF pw(1)]) (simp_all add: n1_def dl dr dv d1)
  have ext: "extends st1 sd"
    using pv(4) pl(4) pr(4) pw(4) by (blast intro: extends_trans)
  show ?case
    unfolding stored_ok_def res using d1 d2 pw(3) ext by (simp add: kn n1_def)
qed

lemma opt_is_Leaf [simp]: "opt_is st node Leaf \<longleftrightarrow> node = None"
  by (auto simp: opt_is_def node_is_def split: option.splits)

lemma opt_is_None [simp]: "opt_is st None t \<longleftrightarrow> t = Leaf"
  by (simp add: opt_is_def)

lemma opt_is_NodeE:
  assumes "opt_is st node (Node lt (a, val) rt)"
  obtains n l r where "node = Some n" "key n = a"
    "follow st (left_ref n) = Some (Inr l)" "opt_is st l lt"
    "follow st (right_ref n) = Some (Inr r)" "opt_is st r rt"
    "follow_value st (value_ref n) = Some (Inr val)"
    "denotes st (left_ref n) lt" "denotes st (right_ref n) rt" "value_is st (value_ref n) val"
proof -
  from assms obtain n where n: "node = Some n" "key n = a" "denotes st (left_ref n) lt"
    "value_is st (value_ref n) val" "denotes st (right_ref n) rt"
    by (auto simp: opt_is_def node_is_def split: option.splits)
  from denotes_follow [OF n(3)] obtain l where l: "follow st (left_ref n) = Some (Inr l)" "opt_is st l lt"
    by blast
  from denotes_follow [OF n(5)] obtain r where r: "follow st (right_ref n) = Some (Inr r)" "opt_is st r rt"
    by blast
  from that [OF n(1,2) l r value_is_follow [OF n(4)] n(3) n(5) n(4)] show thesis .
qed

lemma get_loop_spec:
  "opt_is st node t \<Longrightarrow>
   get_loop st node k = Some (case spec_lookup t k of None \<Rightarrow> Inl KeyError | Some v \<Rightarrow> Inr v)"
proof (induction t arbitrary: node)
  case Leaf
  then show ?case by (simp add: get_loop.simps)
next
  case (Node lt x rt)
  obtain a val where x: "x = (a, val)" by (cases x)
  from Node.prems obtain n l r where n: "node = Some n" "key n = a"
    "follow st (left_ref n) = Some (Inr l)" "opt_is st l lt"
    "follow st (right_ref n) = Some (Inr r)" "opt_is st r rt"
    "follow_value st (value_ref n) = Some (Inr val)"
    unfolding x by (rule opt_is_NodeE)
  show ?case
    by (subst get_loop.simps) (simp add: n x Node.IH(1) [OF n(4)] Node.IH(2) [OF n(6)])
qed

lemma traverse_in_order_spec:
  "opt_is st node t \<Longrightarrow> traverse_in_order st node = Some (Inr (inorder t))"
proof (induction t arbitrary: node)
  case Leaf
  then show ?case by (simp add: traverse_in_order.simps)
next
  case (Node lt x rt)
  obtain a val where x: "x = (a, val)" by (cases x)
  from Node.prems obtain n l r where n: "node = Some n" "key n = a"
    "follow st (left_ref n) = Some (Inr l)" "opt_is st l lt"
    "follow st (right_ref n) = Some (Inr r)" "opt_is st r rt"
    "follow_value st (value_ref n) = Some (Inr val)"
    unfolding x by (rule opt_is_NodeE)
  show ?case
    by (subst traverse_in_order.simps) (simp add: n x Node.IH(1) [OF n(4)] Node.IH(2) [OF n(6)])
qed

lemma insert_spec:
  assumes "value_is st vr val"
  shows "opt_is st node t \<Longrightarrow>
    \<exists>n'. BinaryTree_insert st node k vr = Some (Inr (BinaryNodeRef (Some n') 0)) \<and>
         denotes st (BinaryNodeRef (Some n') 0) (spec_insert k val t)"
proof (induction t arbitrary: node)
  case Leaf
  have "denotes st (BinaryNodeRef (Some (BinaryNode (BinaryNodeRef None 0) k vr (BinaryNodeRef None 0))) 0)
      \<langle>\<langle>\<rangle>, (key (BinaryNode (BinaryNodeRef None 0) k vr (BinaryNodeRef None 0)), val), \<langle>\<rangle>\<rangle>"
    by (rule denotes.dirty) (simp_all add: denotes.null assms)
  with Leaf show ?case by (simp add: BinaryTree_insert.simps)
next
  case (Node lt x rt)
  obtain a w where x: "x = (a, w)" by (cases x)
  from Node.prems obtain n l r where n: "node = Some n" "key n = a"
    "follow st (left_ref n) = Some (Inr l)" "opt_is st l lt"
    "follow st (right_ref n) = Some (Inr r)" "opt_is st r rt"
    "follow_value st (value_ref n) = Some (Inr w)"
    "denotes st (left_ref n) lt" "denotes st (right_ref n) rt" "value_is st (value_ref n) w"
    unfolding x by (rule opt_is_NodeE)
  consider (lt) "k < a" | (gt) "a < k" | (eq) "k = a" by (metis less_linear)
  then show ?case
  proof cases
    case lt
    from Node.IH(1) [OF n(4)] obtain n' where
      n': "BinaryTree_insert st l k vr = Some (Inr (BinaryNodeRef (Some n') 0))"
      "denotes st (BinaryNodeRef (Some n') 0) (spec_insert k val lt)" by blast
    let ?m = "from_node n (Some (BinaryNodeRef (Some n') 0)) None None None"
    have "denotes st (BinaryNodeRef (Some ?m) 0) \<langle>spec_insert k val lt, (key ?m, w), rt\<rangle>"
      by (rule denotes.dirty) (simp_all add: from_node_def n' n)
    then show ?thesis
      using lt by (subst BinaryTree_insert.simps) (simp add: n n' x from_node_def)
  next
    case gt
    from Node.IH(2) [OF n(6)] obtain n' where
      n': "BinaryTree_insert st r k vr = Some (Inr (BinaryNodeRef (Some n') 0))"
      "denotes st (BinaryNodeRef (Some n') 0) (spec_insert k val rt)" by blast
    let ?m = "from_node n None None None (Some (BinaryNodeRef (Some n') 0))"
    have "denotes st (BinaryNodeRef (Some ?m) 0) \<langle>lt, (key ?m, w), spec_insert k val rt\<rangle>"
      by (rule denotes.dirty) (simp_all add: from_node_def n' n)
    moreover from gt have "\<not> k < a" by simp
    ultimately show ?thesis
      using gt by (subst BinaryTree_insert.simps) (simp add: n n' x from_node_def)
  next
    case eq
    let ?m = "from_node n None None (Some vr) None"
    have "denotes st (BinaryNodeRef (Some ?m) 0) \<langle>lt, (key ?m, val), rt\<rangle>"
      by (rule denotes.dirty) (simp_all add: from_node_def assms n)
    then show ?thesis
      using eq by (subst BinaryTree_insert.simps) (simp add: n x from_node_def)
  qed
qed

lemma spec_min_None [simp]: "spec_min t = None \<longleftrightarrow> t = Leaf"
  by (cases t) (auto split: option.splits)

lemma get_min_loop_spec:
  "node_is st n t \<Longrightarrow> \<exists>k v. spec_min t = Some (k, v) \<and> get_min_loop st n = Some (Inr v)"
proof (induction t arbitrary: n)
  case Leaf
  then show ?case by (simp add: node_is_def)
next
  case (Node lt x rt)
  obtain a val where x: "x = (a, val)" by (cases x)
  from Node.prems have "opt_is st (Some n) (Node lt (a, val) rt)" by (simp add: opt_is_def x)
  then obtain l where n: "follow st (left_ref n) = Some (Inr l)" "opt_is st l lt"
    "follow_value st (value_ref n) = Some (Inr val)"
    by (rule opt_is_NodeE) auto
  show ?case
  proof (cases l)
    case None
    with n(2) have "lt = Leaf" by simp
    then show ?thesis by (subst get_min_loop.simps) (simp add: n None x)
  next
    case (Some m)
    with n(2) have m: "node_is st m lt" by (simp add: opt_is_def)
    from Node.IH(1) [OF m] obtain k v where "spec_min lt = Some (k, v)"
      "get_min_loop st m = Some (Inr v)" by blast
    then show ?thesis
      by (subst get_min_loop.simps) (simp add: n Some x)
  qed
qed

lemma child_pair_spec: "opt_is st c t \<Longrightarrow> child_pair st c = Some (spec_child t)"
proof (cases t)
  case Leaf
  assume "opt_is st c t"
  with Leaf show ?thesis by (simp add: child_pair_def)
next
  case (Node lt x rt)
  assume o: "opt_is st c t"
  obtain a val where x: "x = (a, val)" by (cases x)
  from o obtain n where "c = Some n" "key n = a" "follow_value st (value_ref n) = Some (Inr val)"
    unfolding Node x by (rule opt_is_NodeE)
  then show ?thesis by (simp add: child_pair_def Node x)
qed

lemma get_left_loop_spec:
  "opt_is st node t \<Longrightarrow>
   get_left_loop st node k =
     Some (case spec_find t k of None \<Rightarrow> Inl KeyError | Some s \<Rightarrow> spec_child (left s))"
proof (induction t arbitrary: node)
  case Leaf
  then show ?case by (simp add: get_left_loop.simps)
next
  case (Node lt x rt)
  obtain a val where x: "x = (a, val)" by (cases x)
  from Node.prems obtain n l r where n: "node = Some n" "key n = a"
    "follow st (left_ref n) = Some (Inr l)" "opt_is st l lt"
    "follow st (right_ref n) = Some (Inr r)" "opt_is st r rt"
    unfolding x by (rule opt_is_NodeE)
  show ?case
    by (subst get_left_loop.simps)
      (simp add: n x Node.IH(1) [OF n(4)] Node.IH(2) [OF n(6)] child_pair_spec [OF n(4)])
qed

lemma get_right_loop_spec:
  "opt_is st node t \<Longrightarrow>
   get_right_loop st node k =
     Some (case spec_find t k of None \<Rightarrow> Inl KeyError | Some s \<Rightarrow> spec_child (right s))"
proof (induction t arbitrary: node)
  case Leaf
  then show ?case by (simp add: get_right_loop.simps)
next
  case (Node lt x rt)
  obtain a val where x: "x = (a, val)" by (cases x)
  from Node.prems obtain n l r where n: "node = Some n" "key n = a"
    "follow st (left_ref n) = Some (Inr l)" "opt_is st l lt"
    "follow st (right_ref n) = Some (Inr r)" "opt_is st r rt"
    unfolding x by (rule opt_is_NodeE)
  show ?case
    by (subst get_right_loop.simps)
      (simp add: n x Node.IH(1) [OF n(4)] Node.IH(2) [OF n(6)] child_pair_spec [OF n(6)])
qed

lemma chop_loop_Leaf: "chop_loop st None ck nte parent = Some (Inr (nte, parent))"
  by (simp add: chop_loop.simps)

lemma chop_loop_spec:
  "opt_is st node t \<Longrightarrow> t \<noteq> Leaf \<Longrightarrow>
   \<exists>ns p. chop_loop st node ck nte parent = Some (Inr (nte @ ns, Some p)) \<and>
     list_all2 (node_is st) (ns @ [p]) (spec_chop_path t ck)"
proof (induction t arbitrary: node nte parent)
  case Leaf
  then show ?case by simp
next
  case (Node lt x rt)
  obtain a val where x: "x = (a, val)" by (cases x)
  from Node.prems(1) obtain n l r where n: "node = Some n" "key n = a"
    "follow st (left_ref n) = Some (Inr l)" "opt_is st l lt"
    "follow st (right_ref n) = Some (Inr r)" "opt_is st r rt"
    unfolding x by (rule opt_is_NodeE)
  from Node.prems(1) have nis: "node_is st n (Node lt (a, val) rt)"
    by (simp add: opt_is_def n x)
  have stop: "list_all2 (node_is st) ([] @ [n]) [Node lt (a, val) rt]"
    using nis by simp
  consider (lt) "ck < a" "\<not> a < ck" | (gt) "a < ck" "\<not> ck < a" | (eq) "ck = a"
    by (metis less_linear not_less_iff_gr_or_eq)
  then show ?case
  proof cases
    case lt
    show ?thesis
    proof (cases "lt = Leaf")
      case True
      with n(4) have "l = None" by simp
      then have "chop_loop st node ck nte parent = Some (Inr (nte @ [], Some n))"
        using lt by (subst chop_loop.simps) (simp add: n chop_loop_Leaf)
      moreover have "spec_chop_path (Node lt x rt) ck = [Node lt (a, val) rt]"
        using lt True by (simp add: x)
      ultimately show ?thesis using stop by metis
    next
      case False
      from Node.IH(1) [OF n(4) False, of nte "Some n"] obtain ns p where
        1: "chop_loop st l ck nte (Some n) = Some (Inr (nte @ ns, Some p))"
        and 2: "list_all2 (node_is st) (ns @ [p]) (spec_chop_path lt ck)" by blast
      have "chop_loop st node ck nte parent = Some (Inr (nte @ ns, Some p))"
        using lt 1 by (subst chop_loop.simps) (simp add: n)
      moreover have "spec_chop_path (Node lt x rt) ck = spec_chop_path lt ck"
        using lt False by (simp add: x)
      ultimately show ?thesis using 2 by metis
    qed
  next
    case gt
    show ?thesis
    proof (cases "rt = Leaf")
      case True
      with n(6) have "r = None" by simp
      then have "chop_loop st node ck nte parent = Some (Inr (nte @ [], Some n))"
        using gt by (subst chop_loop.simps) (simp add: n chop_loop_Leaf)
      moreover have "spec_chop_path (Node lt x rt) ck = [Node lt (a, val) rt]"
        using gt True by (simp add: x)
      ultimately show ?thesis using stop by metis
    next
      case False
      with n(6) have rne: "r \<noteq> None" by (cases r) simp_all
      from Node.IH(2) [OF n(6) False, of "nte @ [n]" "Some n"] obtain ns p where
        1: "chop_loop st r ck (nte @ [n]) (Some n) = Some (Inr ((nte @ [n]) @ ns, Some p))"
        and 2: "list_all2 (node_is st) (ns @ [p]) (spec_chop_path rt ck)" by blast
      have "chop_loop st node ck nte parent = Some (Inr (nte @ (n # ns), Some p))"
        using gt 1 rne by (subst chop_loop.simps) (simp add: n)
      moreover have "spec_chop_path (Node lt x rt) ck = Node lt (a, val) rt # spec_chop_path rt ck"
        using gt False by (simp add: x)
      moreover have "list_all2 (node_is st) ((n # ns) @ [p]) (Node lt (a, val) rt # spec_chop_path rt ck)"
        using nis 2 by simp
      ultimately show ?thesis by metis
    qed
  next
    case eq
    then have "chop_loop st node ck nte parent = Some (Inr (nte @ [], Some n))"
      by (subst chop_loop.simps) (simp add: n chop_loop_Leaf)
    moreover have "spec_chop_path (Node lt x rt) ck = [Node lt (a, val) rt]"
      using eq by (simp add: x)
    ultimately show ?thesis using stop by metis
  qed
qed

lemma chop_expand_spec:
  "list_all2 (node_is st) nodes ts \<Longrightarrow>
   chop_expand st nodes ck out = Some (Inr (out @ concat (map (spec_expand ck) ts)))"
proof (induction nodes ts arbitrary: out rule: list_all2_induct)
  case Nil
  show ?case by simp
next
  case (Cons n nodes t ts)
  from Cons.hyps(1) obtain lt val rt where t: "t = Node lt (key n, val) rt"
    and o: "opt_is st (Some n) (Node lt (key n, val) rt)"
    by (auto simp: node_is_def opt_is_def)
  from o obtain l where n: "follow st (left_ref n) = Some (Inr l)" "opt_is st l lt"
    "follow_value st (value_ref n) = Some (Inr val)"
    by (rule opt_is_NodeE) auto
  show ?case
    by (simp add: t n traverse_in_order_spec [OF n(2)] Cons.IH)
qed

lemma set_spec_insert: "fst ` set_tree (spec_insert k v t) = insert k (fst ` set_tree t)"
  by (induction t rule: spec_insert.induct) auto

lemma ordered_spec_insert: "ordered t \<Longrightarrow> ordered (spec_insert k v t)"
  by (induction t rule: spec_insert.induct) (auto simp: set_spec_insert)

lemma spec_lookup_insert:
  "spec_lookup (spec_insert k v t) k' = (if k' = k then Some v else spec_lookup t k')"
  by (induction t rule: spec_insert.induct) auto

lemma filter_False: "(\<And>x. x \<in> set xs \<Longrightarrow> \<not> P x) \<Longrightarrow> filter P xs = []"
  by (induction xs) auto

lemma spec_chop_mset:
  "ordered t \<Longrightarrow> mset (spec_chop t ck) = mset (filter (\<lambda>(k, v). k \<le> ck) (inorder t))"
proof (induction t)
  case Leaf
  show ?case by (simp add: spec_chop_def)
next
  case (Node l x r)
  obtain a v where x: "x = (a, v)" by (cases x)
  from Node.prems have ord: "\<And>k w. (k, w) \<in> set_tree l \<Longrightarrow> k < a"
    "\<And>k w. (k, w) \<in> set_tree r \<Longrightarrow> a < k" "ordered l" "ordered r"
    by (auto simp: x)
  note IH = Node.IH(1) [OF ord(3), unfolded spec_chop_def] Node.IH(2) [OF ord(4), unfolded spec_chop_def]
  consider (lt) "ck < a" "\<not> a < ck" "\<not> a \<le> ck" | (gt) "a < ck" "\<not> ck < a" "a \<le> ck"
    | (eq) "ck = a"
    by (metis less_linear not_less_iff_gr_or_eq not_le less_imp_le)
  then show ?case
  proof cases
    case lt
    have r: "filter (\<lambda>(k, v). k \<le> ck) (inorder r) = []"
      using ord(2) lt by (intro filter_False) force
    show ?thesis
    proof (cases "l = Leaf")
      case True
      then show ?thesis using lt r by (simp add: spec_chop_def x)
    next
      case False
      then show ?thesis using lt r IH(1) by (simp add: spec_chop_def x)
    qed
  next
    case gt
    have l: "filter (\<lambda>(k, v). k \<le> ck) (inorder l) = inorder l"
      using ord(1) gt by (intro filter_True) force
    show ?thesis
    proof (cases "r = Leaf")
      case True
      then show ?thesis using gt l by (simp add: spec_chop_def x)
    next
      case False
      then show ?thesis using gt l IH(2) by (simp add: spec_chop_def x)
    qed
  next
    case eq
    have r: "filter (\<lambda>(k, v). k \<le> ck) (inorder r) = []"
      using ord(2) eq by (intro filter_False) force
    have l: "filter (\<lambda>(k, v). k \<le> ck) (inorder l) = inorder l"
      using ord(1) eq by (intro filter_True) force
    show ?thesis
      using eq l r by (simp add: spec_chop_def x)
  qed
qed

lemma denotes_fobj: "denotes st ref t \<Longrightarrow> fobj st' = fobj st \<Longrightarrow> denotes st' ref t"
  by (erule denotes_mono) simp

lemma wf_storage_fobj: "wf_storage st \<Longrightarrow> fobj st' = fobj st \<Longrightarrow> wf_storage st'"
  by (simp add: wf_storage_def)

lemma denotes_Leaf_iff [simp]: "denotes st ref Leaf \<longleftrightarrow> ref = BinaryNodeRef None 0"
  by (auto elim: denotes.cases intro: denotes.null)

lemma Storage_init_wf:
  "SUPERBLOCK_SIZE \<le> eof f \<Longrightarrow>
   Storage_init f = \<lparr>fobj = f, closed = False, locked = False\<rparr>"
  by (simp add: Storage_init_def ensure_superblock_def lock_def unlock_def Let_def)

lemma connect_new_file:
  "connect new_file =
     \<lparr>storage = \<lparr>fobj = \<lparr>root = 0, recs = Map.empty, eof = SUPERBLOCK_SIZE\<rparr>,
                  closed = False, locked = False\<rparr>,
      tree_ref = BinaryNodeRef None 0\<rparr>"
  by (simp add: connect_def DBDB_init_def BinaryTree_init_def refresh_tree_ref_def
      Storage_init_def ensure_superblock_def lock_def unlock_def Let_def new_file_def
      get_root_address_def SUPERBLOCK_SIZE_def)

lemma db_state_connect_new: "db_state (connect new_file) Leaf Leaf"
  by (simp add: connect_new_file db_state_def wf_storage_def)

lemma connect_reopen:
  assumes "SUPERBLOCK_SIZE \<le> eof f"
  shows "connect f = \<lparr>storage = \<lparr>fobj = f, closed = False, locked = False\<rparr>,
                       tree_ref = BinaryNodeRef None (root f)\<rparr>"
  by (simp add: connect_def DBDB_init_def BinaryTree_init_def refresh_tree_ref_def
      Storage_init_wf [OF assms] get_root_address_def)

lemma db_state_reopen:
  assumes "wf_storage st" and "denotes st (BinaryNodeRef None (root (fobj st))) t0"
    and "ordered t0"
  shows "db_state (connect (fobj st)) t0 t0"
proof -
  from assms(1) have "SUPERBLOCK_SIZE \<le> eof (fobj st)" by (simp add: wf_storage_def)
  note c = connect_reopen [OF this]
  have "denotes \<lparr>fobj = fobj st, closed = False, locked = False\<rparr>
      (BinaryNodeRef None (root (fobj st))) t0"
    by (rule denotes_fobj [OF assms(2)]) simp
  moreover have "wf_storage \<lparr>fobj = fobj st, closed = False, locked = False\<rparr>"
    by (rule wf_storage_fobj [OF assms(1)]) simp
  ultimately show ?thesis using assms(3) by (simp add: c db_state_def)
qed

lemma db_state_current: "db_state db t t0 \<Longrightarrow> db_state (current db) t t0"
  by (auto simp: db_state_def current_def refresh_tree_ref_def get_root_address_def)

lemma storage_current [simp]: "storage (current db) = storage db"
  by (simp add: current_def refresh_tree_ref_def)

lemma db_state_follow:
  assumes "db_state db t t0"
  obtains node where "follow (storage db) (tree_ref db) = Some (Inr node)"
    "opt_is (storage db) node t"
  using assms denotes_follow unfolding db_state_def by blast

lemma BinaryTree_get_current:
  "BinaryTree_get db k =
     map_option (\<lambda>res. (res, current db))
       (ebind (follow (storage db) (tree_ref (current db))) (\<lambda>node. get_loop (storage db) node k))"
  by (simp add: BinaryTree_get_def current_def Let_def refresh_tree_ref_def)

lemma DBDB_get_spec:
  assumes "db_state db t t0"
  shows "DBDB_get db k =
    Some ((case spec_lookup t k of None \<Rightarrow> Inl KeyError | Some v \<Rightarrow> Inr v), current db)"
proof -
  from db_state_current [OF assms] obtain node where
    n: "follow (storage db) (tree_ref (current db)) = Some (Inr node)" "opt_is (storage db) node t"
    by (rule db_state_follow) simp
  from assms have "assert_not_closed db = None" by (simp add: db_state_def assert_not_closed_def)
  then show ?thesis
    using n(1) get_loop_spec [OF n(2), of k]
    by (simp add: DBDB_get_def BinaryTree_get_current)
qed

lemma locked_update_id: "locked st \<Longrightarrow> st\<lparr>locked := True\<rparr> = st"
  by (cases st) simp

lemma BinaryTree_set_current:
  "BinaryTree_set db k v =
     (let t2 = (current db)\<lparr>storage := (storage db)\<lparr>locked := True\<rparr>\<rparr>
      in case ebind (follow (storage t2) (tree_ref t2))
                (\<lambda>node. BinaryTree_insert (storage t2) node k (ValueRef (Some v) 0)) of
           None \<Rightarrow> None
         | Some (Inl e) \<Rightarrow> Some (Inl e, t2)
         | Some (Inr new_ref) \<Rightarrow> Some (Inr (), t2\<lparr>tree_ref := new_ref\<rparr>))"
proof (cases "locked (storage db)")
  case True
  then show ?thesis
    by (simp add: BinaryTree_set_def lock_def current_def locked_update_id)
next
  case False
  have "refresh_tree_ref (db\<lparr>storage := (storage db)\<lparr>locked := True\<rparr>\<rparr>) =
      (refresh_tree_ref db)\<lparr>storage := (storage db)\<lparr>locked := True\<rparr>\<rparr>"
    by (simp add: refresh_tree_ref_def get_root_address_def)
  with False show ?thesis
    by (simp add: BinaryTree_set_def lock_def current_def Let_def
        cong: option.case_cong sum.case_cong)
qed

lemma DBDB_set_spec:
  assumes "db_state db t t0"
  shows "\<exists>db'. DBDB_set db k v = Some (Inr (), db') \<and>
     db_state db' (spec_insert k (Some v) t) t0 \<and>
     fobj (storage db') = fobj (storage db) \<and> locked (storage db')"
proof -
  define st1 where "st1 = (storage db)\<lparr>locked := True\<rparr>"
  have f1: "fobj st1 = fobj (storage db)" by (simp add: st1_def)
  define db2 where "db2 = (current db)\<lparr>storage := st1\<rparr>"
  have s2: "storage db2 = st1" by (simp add: db2_def)
  from db_state_current [OF assms]
  have d: "denotes (storage db) (tree_ref (current db)) t" by (simp add: db_state_def)
  have "tree_ref db2 = tree_ref (current db)" by (simp add: db2_def)
  then have d2: "denotes st1 (tree_ref db2) t"
    using denotes_fobj [OF d f1] by simp
  from denotes_follow [OF d2] obtain node where
    n: "follow st1 (tree_ref db2) = Some (Inr node)" "opt_is st1 node t" by blast
  have "value_is st1 (ValueRef (Some v) 0) (Some v)" by (simp add: value_is_def)
  from insert_spec [OF this n(2), of k] obtain n' where
    i: "BinaryTree_insert st1 node k (ValueRef (Some v) 0) = Some (Inr (BinaryNodeRef (Some n') 0))"
    "denotes st1 (BinaryNodeRef (Some n') 0) (spec_insert k (Some v) t)" by blast
  define db' where "db' = db2\<lparr>tree_ref := BinaryNodeRef (Some n') 0\<rparr>"
  from assms have nc: "assert_not_closed db = None"
    by (simp add: db_state_def assert_not_closed_def)
  have run: "DBDB_set db k v = Some (Inr (), db')"
    using n(1) i(1)
    by (simp add: DBDB_set_def nc BinaryTree_set_current db'_def s2
        db2_def [symmetric] st1_def [symmetric])
  from assms have "denotes st1 (BinaryNodeRef None (root (fobj st1))) t0"
    by (auto simp: db_state_def f1 intro: denotes_fobj)
  moreover from assms have "wf_storage st1" "\<not> closed st1"
    by (auto simp: db_state_def st1_def wf_storage_def)
  ultimately have "db_state db' (spec_insert k (Some v) t) t0"
    using assms i(2) by (simp add: db_state_def db'_def s2 ordered_spec_insert st1_def)
  moreover have "fobj (storage db') = fobj (storage db)" "locked (storage db')"
    by (simp_all add: db'_def s2 f1) (simp add: st1_def)
  ultimately show ?thesis using run by blast
qed

lemma DBDB_commit_spec:
  assumes "db_state db t t0"
  shows "\<exists>db'. DBDB_commit plen db = (Inr (), db') \<and> db_state db' t t \<and>
     \<not> locked (storage db')"
proof -
  from assms have wf: "wf_storage (storage db)" and d: "denotes (storage db) (tree_ref db) t"
    and nc: "assert_not_closed db = None" and o: "ordered t" and ncl: "\<not> closed (storage db)"
    by (simp_all add: db_state_def assert_not_closed_def)
  obtain st1 r1 where s: "BinaryNodeRef_store plen (storage db) (tree_ref db) = (st1, r1)"
    by force
  from store_denotes [OF d wf, of plen] s
  have p: "denotes st1 r1 t" "denotes st1 (BinaryNodeRef None (address r1)) t"
    "wf_storage st1" "extends (storage db) st1"
    by (simp_all add: stored_ok_def)
  define st2 where "st2 = commit_root_address st1 (address r1)"
  have f2: "fobj st2 = (fobj st1)\<lparr>root := address r1\<rparr>" and l2: "\<not> locked st2"
    and c2: "closed st2 = closed st1"
    by (auto simp: st2_def commit_root_address_def lock_def unlock_def Let_def)
  have le: "recs (fobj st1) \<subseteq>\<^sub>m recs (fobj st2)" by (simp add: f2)
  have "db_state (db\<lparr>storage := st2, tree_ref := r1\<rparr>) t t"
    using denotes_mono [OF p(1) le] denotes_mono [OF p(2) le] p(3,4) o ncl
    by (simp add: db_state_def f2 c2 wf_storage_def extends_def)
  moreover have "DBDB_commit plen db = (Inr (), db\<lparr>storage := st2, tree_ref := r1\<rparr>)"
    by (simp add: DBDB_commit_def nc BinaryTree_commit_def s st2_def)
  ultimately show ?thesis using l2 by auto
qed

lemma db_state_close_reopen:
  assumes "db_state db t t0"
  shows "db_state (connect (fobj (storage (snd (DBDB_close db))))) t0 t0"
proof -
  have f: "fobj (storage (snd (DBDB_close db))) = fobj (storage db)"
    by (simp add: DBDB_close_def Storage_close_def unlock_def)
  from assms show ?thesis
    unfolding f by (intro db_state_reopen) (simp_all add: db_state_def)
qed

lemma DBDB_set_all_spec:
  assumes "db_state db t t0"
  shows "\<exists>db'. DBDB_set_all db kvs = Some (Inr (), db') \<and>
     db_state db' (fold (\<lambda>(k, v). spec_insert k (Some v)) kvs t) t0 \<and>
     fobj (storage db') = fobj (storage db)"
  using assms
proof (induction kvs arbitrary: db t)
  case Nil
  then show ?case by simp
next
  case (Cons kv kvs)
  obtain k v where kv: "kv = (k, v)" by (cases kv)
  from DBDB_set_spec [OF Cons.prems, of k v] obtain db1 where
    1: "DBDB_set db k v = Some (Inr (), db1)" "db_state db1 (spec_insert k (Some v) t) t0"
    "fobj (storage db1) = fobj (storage db)" by blast
  from Cons.IH [OF 1(2)] obtain db' where
    2: "DBDB_set_all db1 kvs = Some (Inr (), db')"
    "db_state db' (fold (\<lambda>(k, v). spec_insert k (Some v)) kvs (spec_insert k (Some v) t)) t0"
    "fobj (storage db') = fobj (storage db1)" by blast
  from 1 2 show ?case by (simp add: kv)
qed


lemma set_tree_fold_insert:
  "fst ` set_tree (fold (\<lambda>(k, v). spec_insert k (f v)) kvs t) = fst ` set kvs \<union> fst ` set_tree t"
proof (induction kvs arbitrary: t)
  case Nil
  show ?case by simp
next
  case (Cons kv kvs)
  obtain k v where kv: "kv = (k, v)" by (cases kv)
  show ?case by (simp add: kv Cons.IH set_spec_insert)
qed





lemma BinaryTree_get_left_current:
  "BinaryTree_get_left db k =
     map_option (\<lambda>res. (res, current db))
       (ebind (follow (storage db) (tree_ref (current db)))
          (\<lambda>node. get_left_loop (storage db) node k))"
  by (simp add: BinaryTree_get_left_def current_def Let_def refresh_tree_ref_def)

lemma BinaryTree_get_right_current:
  "BinaryTree_get_right db k =
     map_option (\<lambda>res. (res, current db))
       (ebind (follow (storage db) (tree_ref (current db)))
          (\<lambda>node. get_right_loop (storage db) node k))"
  by (simp add: BinaryTree_get_right_def current_def Let_def refresh_tree_ref_def)

lemma BinaryTree_chop_current:
  "BinaryTree_chop db chop_key =
     map_option (\<lambda>res. (res, current db))
       (ebind (follow (storage db) (tree_ref (current db))) (\<lambda>node.
        ebind (chop_loop (storage db) node chop_key [] None) (\<lambda>(nodes_to_expand, parent_node).
          case parent_node of
            None \<Rightarrow> Some (Inl (UnboundLocalError ''parent_node''))
          | Some p \<Rightarrow> chop_expand (storage db) (nodes_to_expand @ [p]) chop_key [])))"
  by (simp add: BinaryTree_chop_def current_def Let_def refresh_tree_ref_def)

lemma DBDB_get_left_spec:
  assumes "db_state db t t0"
  shows "DBDB_get_left db k =
    Some ((case spec_find t k of None \<Rightarrow> Inl KeyError | Some s \<Rightarrow> spec_child (left s)),
          current db)"
proof -
  from db_state_current [OF assms] obtain node where
    n: "follow (storage db) (tree_ref (current db)) = Some (Inr node)" "opt_is (storage db) node t"
    by (rule db_state_follow) simp
  from assms have "assert_not_closed db = None" by (simp add: db_state_def assert_not_closed_def)
  then show ?thesis
    using n(1) get_left_loop_spec [OF n(2), of k]
    by (simp add: DBDB_get_left_def BinaryTree_get_left_current)
qed

lemma DBDB_get_right_spec:
  assumes "db_state db t t0"
  shows "DBDB_get_right db k =
    Some ((case spec_find t k of None \<Rightarrow> Inl KeyError | Some s \<Rightarrow> spec_child (right s)),
          current db)"
proof -
  from db_state_current [OF assms] obtain node where
    n: "follow (storage db) (tree_ref (current db)) = Some (Inr node)" "opt_is (storage db) node t"
    by (rule db_state_follow) simp
  from assms have "assert_not_closed db = None" by (simp add: db_state_def assert_not_closed_def)
  then show ?thesis
    using n(1) get_right_loop_spec [OF n(2), of k]
    by (simp add: DBDB_get_right_def BinaryTree_get_right_current)
qed

lemma DBDB_chop_spec:
  assumes "db_state db t t0"
  shows "DBDB_chop db ck =
    Some ((if t = Leaf then Inl (UnboundLocalError ''parent_node'') else Inr (spec_chop t ck)),
          current db)"
proof -
  from db_state_current [OF assms] obtain node where
    n: "follow (storage db) (tree_ref (current db)) = Some (Inr node)" "opt_is (storage db) node t"
    by (rule db_state_follow) simp
  from assms have nc: "assert_not_closed db = None"
    by (simp add: db_state_def assert_not_closed_def)
  show ?thesis
  proof (cases "t = Leaf")
    case True
    with n(2) have "node = None" by simp
    with True nc n(1) show ?thesis
      by (simp add: DBDB_chop_def BinaryTree_chop_current chop_loop_Leaf)
  next
    case False
    from chop_loop_spec [OF n(2) False, of ck "[]" None] obtain ns p where
      l: "chop_loop (storage db) node ck [] None = Some (Inr (ns, Some p))"
      "list_all2 (node_is (storage db)) (ns @ [p]) (spec_chop_path t ck)" by auto
    from chop_expand_spec [OF l(2), of ck "[]"] False nc n(1) l(1) show ?thesis
      by (simp add: DBDB_chop_def BinaryTree_chop_current spec_chop_def)
  qed
qed

lemma DBDB_get_min_spec:
  assumes "\<not> closed (storage db)" and "denotes (storage db) (tree_ref db) t"
  shows "DBDB_get_min db =
    Some ((case spec_min t of
             None \<Rightarrow> Inl (AttributeError ''NoneType'' ''left_ref'')
           | Some (k, v) \<Rightarrow> Inr v), db)"
proof -
  from denotes_follow [OF assms(2)] obtain node where
    n: "follow (storage db) (tree_ref db) = Some (Inr node)" "opt_is (storage db) node t"
    by blast
  from assms(1) have nc: "assert_not_closed db = None" by (simp add: assert_not_closed_def)
  show ?thesis
  proof (cases node)
    case None
    with n(2) have "t = Leaf" by simp
    with None n(1) nc show ?thesis
      by (simp add: DBDB_get_min_def BinaryTree_get_min_def)
  next
    case (Some m)
    with n(2) have "node_is (storage db) m t" by (simp add: opt_is_def)
    from get_min_loop_spec [OF this] obtain k v where
      "spec_min t = Some (k, v)" "get_min_loop (storage db) m = Some (Inr v)" by blast
    with Some n(1) nc show ?thesis
      by (simp add: DBDB_get_min_def BinaryTree_get_min_def)
  qed
qed

lemma reachable_db_state: "reachable db \<Longrightarrow> \<exists>t t0. db_state db t t0"
proof (induction rule: reachable.induct)
  case new
  show ?case using db_state_connect_new by blast
next
  case (set db k v res_u db')
  then obtain t t0 where "db_state db t t0" by blast
  from DBDB_set_spec [OF this, of k v] set.hyps(2) show ?case by auto
next
  case (commit db plen res_u db')
  then obtain t t0 where "db_state db t t0" by blast
  from DBDB_commit_spec [OF this, of plen] commit.hyps(2) show ?case by auto
next
  case (get db k res_v db')
  then obtain t t0 where s: "db_state db t t0" by blast
  from DBDB_get_spec [OF s, of k] get.hyps(2) db_state_current [OF s] show ?case by auto
next
  case (get_left db k res_p db')
  then obtain t t0 where s: "db_state db t t0" by blast
  from DBDB_get_left_spec [OF s, of k] get_left.hyps(2) db_state_current [OF s] show ?case by auto
next
  case (get_right db k res_p db')
  then obtain t t0 where s: "db_state db t t0" by blast
  from DBDB_get_right_spec [OF s, of k] get_right.hyps(2) db_state_current [OF s] show ?case
    by auto
next
  case (chop db k res_l db')
  then obtain t t0 where s: "db_state db t t0" by blast
  from DBDB_chop_spec [OF s, of k] chop.hyps(2) db_state_current [OF s] show ?case by auto
next
  case (reopen db)
  then obtain t t0 where "db_state db t t0" by blast
  from db_state_close_reopen [OF this] show ?case by blast
qed

lemma three_keys_state:
  "\<exists>db. DBDB_set_all (connect new_file) [(16 :: int, ''big''), (15, ''med''), (14, ''sml'')] =
       Some (Inr (), db) \<and>
     db_state db \<langle>\<langle>\<langle>\<langle>\<rangle>, (14, Some ''sml''), \<langle>\<rangle>\<rangle>, (15, Some ''med''), \<langle>\<rangle>\<rangle>, (16, Some ''big''), \<langle>\<rangle>\<rangle> \<langle>\<rangle>"
proof -
  have "fold (\<lambda>(k, v). spec_insert k (Some v)) [(16 :: int, ''big''), (15, ''med''), (14, ''sml'')] Leaf =
      \<langle>\<langle>\<langle>\<langle>\<rangle>, (14, Some ''sml''), \<langle>\<rangle>\<rangle>, (15, Some ''med''), \<langle>\<rangle>\<rangle>, (16, Some ''big''), \<langle>\<rangle>\<rangle>"
    by simp
  with DBDB_set_all_spec [OF db_state_connect_new,
      of "[(16 :: int, ''big''), (15, ''med''), (14, ''sml'')]"]
  show ?thesis by metis
qed

lemma set_all_new_state:
  "\<exists>db. DBDB_set_all (connect new_file) kvs = Some (Inr (), db) \<and>
     db_state db (fold (\<lambda>(k, v). spec_insert k (Some v)) kvs Leaf) Leaf"
  using DBDB_set_all_spec [OF db_state_connect_new, of kvs] by blast

lemma db_state_traverse:
  assumes "db_state db t t0"
  obtains node where "follow (storage db) (tree_ref (current db)) = Some (Inr node)"
    "traverse_in_order (storage db) node = Some (Inr (inorder t))" "node = None \<longleftrightarrow> t = Leaf"
proof -
  from db_state_current [OF assms] obtain node where
    n: "follow (storage db) (tree_ref (current db)) = Some (Inr node)" "opt_is (storage db) node t"
    by (rule db_state_follow) simp
  from n(2) have "node = None \<longleftrightarrow> t = Leaf"
    by (cases node) (auto simp: opt_is_def node_is_def)
  with n(1) traverse_in_order_spec [OF n(2)] that show thesis by blast
qed























lemma height_spec_insert_le: "height (spec_insert k v t) \<le> Suc (height t)"
  by (induction t rule: spec_insert.induct) auto

lemma height_fold_insert_le:
  "height (fold (\<lambda>(k, v). spec_insert k (f v)) kvs t) \<le> height t + length kvs"
proof (induction kvs arbitrary: t)
  case Nil
  show ?case by simp
next
  case (Cons kv kvs)
  obtain k v where kv: "kv = (k, v)" by (cases kv)
  from height_spec_insert_le [of k "f v" t] Cons.IH [of "spec_insert k (f v) t"]
  show ?case by (simp add: kv)
qed





section \<open>The claims\<close>




text \<open>
  C2. On a tree with at least one key, \<open>chop(T)\<close> returns, in some order, exactly the
  pairs of the in-order traversal from the root whose key is at most \<open>T\<close>, wherever
  \<open>T\<close> lies among the keys. On the tree without keys, whose root is \<open>None\<close>, it raises
  \<open>UnboundLocalError\<close>: the loop that binds \<open>parent_node\<close> does not run.
\<close>

theorem chop_correct_unless_empty:
  assumes "db_state db t t0"
  shows "\<exists>node ys.
    follow (storage db) (tree_ref (current db)) = Some (Inr node) \<and>
    traverse_in_order (storage db) node = Some (Inr ys) \<and> ys = inorder t \<and>
    (node = None \<longleftrightarrow> t = Leaf) \<and>
    (if node = None
     then DBDB_chop db T = Some (Inl (UnboundLocalError ''parent_node''), current db)
     else \<exists>xs. DBDB_chop db T = Some (Inr xs, current db) \<and>
            mset xs = mset (filter (\<lambda>(k, v). k \<le> T) ys))"
proof -
  from assms obtain node where
    n: "follow (storage db) (tree_ref (current db)) = Some (Inr node)"
    "traverse_in_order (storage db) node = Some (Inr (inorder t))" "node = None \<longleftrightarrow> t = Leaf"
    by (rule db_state_traverse)
  from assms have "ordered t" by (simp add: db_state_def)
  from spec_chop_mset [OF this, of T] n show ?thesis
    by (simp add: DBDB_chop_spec [OF assms])
qed

theorem chop_correct_unless_empty_witness:
  "DBDB_chop (connect new_file) (7 :: int) =
     Some (Inl (UnboundLocalError ''parent_node''), current (connect new_file)) \<and>
   (\<exists>db xs1 xs2 xs3 xs4.
     DBDB_set_all (connect new_file) [(20 :: int, ''b''), (10, ''a''), (30, ''c'')] =
       Some (Inr (), db) \<and>
     DBDB_chop db 20 = Some (Inr xs1, current db) \<and>
     mset xs1 = {#(10, Some ''a''), (20, Some ''b'')#} \<and>
     DBDB_chop db 25 = Some (Inr xs2, current db) \<and>
     mset xs2 = {#(10, Some ''a''), (20, Some ''b'')#} \<and>
     DBDB_chop db 5 = Some (Inr xs3, current db) \<and> mset xs3 = {#} \<and>
     DBDB_chop db 35 = Some (Inr xs4, current db) \<and>
     mset xs4 = {#(10, Some ''a''), (20, Some ''b''), (30, Some ''c'')#})"
proof -
  from chop_correct_unless_empty [OF db_state_connect_new, of 7]
  have 1: "DBDB_chop (connect new_file) (7 :: int) =
     Some (Inl (UnboundLocalError ''parent_node''), current (connect new_file))"
    by (auto split: if_splits)
  from set_all_new_state [of "[(20 :: int, ''b''), (10, ''a''), (30, ''c'')]"] obtain db where
    db: "DBDB_set_all (connect new_file) [(20 :: int, ''b''), (10, ''a''), (30, ''c'')] =
       Some (Inr (), db)"
    "db_state db \<langle>\<langle>\<langle>\<rangle>, (10, Some ''a''), \<langle>\<rangle>\<rangle>, (20, Some ''b''), \<langle>\<langle>\<rangle>, (30, Some ''c''), \<langle>\<rangle>\<rangle>\<rangle> \<langle>\<rangle>"
    by auto
  from chop_correct_unless_empty [OF db(2), of 20] obtain xs1 where
    "DBDB_chop db 20 = Some (Inr xs1, current db)"
    "mset xs1 = {#(10, Some ''a''), (20, Some ''b'')#}"
    by (auto split: if_splits)
  moreover from chop_correct_unless_empty [OF db(2), of 25] obtain xs2 where
    "DBDB_chop db 25 = Some (Inr xs2, current db)"
    "mset xs2 = {#(10, Some ''a''), (20, Some ''b'')#}"
    by (auto split: if_splits)
  moreover from chop_correct_unless_empty [OF db(2), of 5] obtain xs3 where
    "DBDB_chop db 5 = Some (Inr xs3, current db)" "mset xs3 = {#}"
    by (auto split: if_splits)
  moreover from chop_correct_unless_empty [OF db(2), of 35] obtain xs4 where
    "DBDB_chop db 35 = Some (Inr xs4, current db)"
    "mset xs4 = {#(10, Some ''a''), (20, Some ''b''), (30, Some ''c'')#}"
    by (auto split: if_splits)
  ultimately show ?thesis using db(1) 1 by blast
qed

text \<open>
  C3. A \<open>set\<close> writes nothing: the file is as before, and the call changes only the
  tree reference and the lock flag of the handle. The handle itself sees the new value.
  After \<open>close\<close> without \<open>commit\<close>, a database opened on the same file answers
  \<open>get\<close> from the tree of the last commit: the committed value of the key, or
  \<open>KeyError\<close> for a key never committed.
\<close>

theorem uncommitted_set_not_durable:
  assumes "db_state db t t0"
  shows "\<exists>new_ref db1.
    db1 = db\<lparr>storage := (storage db)\<lparr>locked := True\<rparr>, tree_ref := new_ref\<rparr> \<and>
    DBDB_set db k v = Some (Inr (), db1) \<and>
    fobj (storage db1) = fobj (storage db) \<and>
    map_option fst (DBDB_get db1 k) = Some (Inr (Some v)) \<and>
    (\<forall>k'. map_option fst (DBDB_get (connect (fobj (storage (snd (DBDB_close db1))))) k') =
       Some (case spec_lookup t0 k' of None \<Rightarrow> Inl KeyError | Some w \<Rightarrow> Inr w))"
proof -
  from DBDB_set_spec [OF assms, of k v] obtain db1 where
    1: "DBDB_set db k v = Some (Inr (), db1)" "db_state db1 (spec_insert k (Some v) t) t0"
    by blast
  from assms have nc: "assert_not_closed db = None"
    by (simp add: db_state_def assert_not_closed_def)
  from 1(1) obtain new_ref where
    db1: "db1 = (current db)\<lparr>storage := (storage db)\<lparr>locked := True\<rparr>, tree_ref := new_ref\<rparr>"
    by (auto simp: DBDB_set_def nc BinaryTree_set_current Let_def
        split: option.splits sum.splits)
  have "(current db)\<lparr>storage := (storage db)\<lparr>locked := True\<rparr>, tree_ref := new_ref\<rparr> =
      db\<lparr>storage := (storage db)\<lparr>locked := True\<rparr>, tree_ref := new_ref\<rparr>"
    by (simp add: current_def refresh_tree_ref_def)
  with db1 have eq: "db1 = db\<lparr>storage := (storage db)\<lparr>locked := True\<rparr>, tree_ref := new_ref\<rparr>"
    by simp
  then have f: "fobj (storage db1) = fobj (storage db)" by simp
  have g: "map_option fst (DBDB_get db1 k) = Some (Inr (Some v))"
    by (simp add: DBDB_get_spec [OF 1(2)] spec_lookup_insert)
  have "db_state (connect (fobj (storage (snd (DBDB_close db1))))) t0 t0"
    by (rule db_state_close_reopen [OF 1(2)])
  then have r: "\<forall>k'. map_option fst (DBDB_get (connect (fobj (storage (snd (DBDB_close db1))))) k') =
       Some (case spec_lookup t0 k' of None \<Rightarrow> Inl KeyError | Some w \<Rightarrow> Inr w)"
    by (simp add: DBDB_get_spec)
  from eq 1(1) f g r show ?thesis by blast
qed

theorem uncommitted_set_not_durable_witness:
  "\<exists>db1.
    DBDB_set (connect new_file) (16 :: int) ''really big'' = Some (Inr (), db1) \<and>
    fobj (storage db1) = fobj (storage (connect new_file)) \<and>
    map_option fst (DBDB_get db1 16) = Some (Inr (Some ''really big'')) \<and>
    map_option fst (DBDB_get (connect (fobj (storage (snd (DBDB_close db1))))) 16) =
      Some (Inl KeyError)"
proof -
  from uncommitted_set_not_durable [OF db_state_connect_new, of 16 "''really big''"]
  obtain db1 where
    "DBDB_set (connect new_file) (16 :: int) ''really big'' = Some (Inr (), db1)"
    "fobj (storage db1) = fobj (storage (connect new_file))"
    "map_option fst (DBDB_get db1 16) = Some (Inr (Some ''really big''))"
    "\<forall>k'. map_option fst (DBDB_get (connect (fobj (storage (snd (DBDB_close db1))))) k') =
       Some (case spec_lookup Leaf k' of None \<Rightarrow> Inl KeyError | Some w \<Rightarrow> Inr w)"
    by blast
  then show ?thesis by (intro exI [of _ db1]) simp
qed

text \<open>
  C4. After any sequence of \<open>set\<close> calls on a new database the tree reference denotes a
  tree that holds exactly the keys set and in which, at every node, the keys of the left
  subtree are less than the key of the node and those of the right subtree greater.
\<close>

theorem insertions_keep_order:
  "\<exists>db t. DBDB_set_all (connect new_file) kvs = Some (Inr (), db) \<and>
     denotes (storage db) (tree_ref db) t \<and> ordered t \<and> fst ` set_tree t = fst ` set kvs"
proof -
  let ?t = "fold (\<lambda>(k, v). spec_insert k (Some v)) kvs Leaf"
  from DBDB_set_all_spec [OF db_state_connect_new, of kvs] obtain db where
    "DBDB_set_all (connect new_file) kvs = Some (Inr (), db)" "db_state db ?t Leaf" by blast
  moreover have "fst ` set_tree ?t = fst ` set kvs" by (simp add: set_tree_fold_insert)
  ultimately show ?thesis by (auto simp: db_state_def)
qed

theorem insertions_keep_order_witness:
  "\<exists>db t. DBDB_set_all (connect new_file) [(8 :: int, ''eight''), (3, ''three''), (10, ''ten'')] =
       Some (Inr (), db) \<and>
     denotes (storage db) (tree_ref db) t \<and> ordered t \<and> fst ` set_tree t = {8, 3, 10}"
  using insertions_keep_order [of "[(8 :: int, ''eight''), (3, ''three''), (10, ''ten'')]"]
  by simp



text \<open>
  C6. On a new database \<open>chop(T)\<close> raises \<open>UnboundLocalError\<close> for every \<open>T\<close>, where
  the claim has an empty sequence; \<open>traverse_in_order\<close> of the root that is \<open>None\<close>
  returns the empty list.
\<close>

theorem chop_empty_tree_raises:
  "DBDB_chop (connect new_file) T =
     Some (Inl (UnboundLocalError ''parent_node''), connect new_file) \<and>
   follow (storage (connect new_file)) (tree_ref (connect new_file)) = Some (Inr None) \<and>
   traverse_in_order (storage (connect new_file)) None = Some (Inr [])"
  by (simp add: connect_new_file DBDB_chop_def assert_not_closed_def BinaryTree_chop_def
      refresh_tree_ref_def get_root_address_def follow_def BinaryNodeRef_get_def
      chop_loop.simps traverse_in_order.simps)

text \<open>
  C7 as stated fails where the key is found and the child is missing: the error is
  the \<open>AttributeError\<close> of \<open>node_left.key\<close> on \<open>None\<close>, not \<open>KeyError\<close>.
\<close>

theorem get_left_null_child_attribute_error:
  "map_option fst (DBDB_get_left (snd (the (DBDB_set (connect new_file) (1 :: int) ''one''))) 1) =
     Some (Inl (AttributeError ''NoneType'' ''key'')) \<and>
   map_option fst (DBDB_get_right (snd (the (DBDB_set (connect new_file) (1 :: int) ''one''))) 1) =
     Some (Inl (AttributeError ''NoneType'' ''key'')) \<and>
   map_option fst (DBDB_get_left (snd (the (DBDB_set (connect new_file) (1 :: int) ''one''))) 1) \<noteq>
     Some (Inl KeyError)"
proof -
  from DBDB_set_spec [OF db_state_connect_new, of 1 "''one''"] obtain db where
    db: "DBDB_set (connect new_file) (1 :: int) ''one'' = Some (Inr (), db)"
    "db_state db (spec_insert 1 (Some ''one'') Leaf) Leaf" by blast
  show ?thesis
    by (simp add: db(1) DBDB_get_left_spec [OF db(2)] DBDB_get_right_spec [OF db(2)])
qed

text \<open>
  C7, amended. \<open>get_left(k)\<close> and \<open>get_right(k)\<close> fail with \<open>KeyError\<close> when no node
  holds \<open>k\<close>; when a node holds \<open>k\<close> they return the key and the value at the root of
  its left, respectively right, subtree, and fail with \<open>AttributeError\<close> (\<open>spec_child\<close>
  of the empty tree) when that subtree is empty. No placeholder is returned.
\<close>

theorem get_left_right_child:
  assumes "db_state db t t0"
  shows "DBDB_get_left db k =
      Some ((case spec_find t k of
               None \<Rightarrow> Inl KeyError
             | Some s \<Rightarrow> (case left s of
                            Leaf \<Rightarrow> Inl (AttributeError ''NoneType'' ''key'')
                          | Node l child r \<Rightarrow> Inr child)), current db) \<and>
    DBDB_get_right db k =
      Some ((case spec_find t k of
               None \<Rightarrow> Inl KeyError
             | Some s \<Rightarrow> (case right s of
                            Leaf \<Rightarrow> Inl (AttributeError ''NoneType'' ''key'')
                          | Node l child r \<Rightarrow> Inr child)), current db)"
proof -
  have sc: "spec_child s = (case s of Leaf \<Rightarrow> Inl (AttributeError ''NoneType'' ''key'')
      | Node l child r \<Rightarrow> Inr child)" for s :: "('k \<times> string option) tree"
    by (cases s) simp_all
  show ?thesis
    by (simp add: DBDB_get_left_spec [OF assms] DBDB_get_right_spec [OF assms] sc
        split: option.split)
qed

theorem get_left_right_child_witness:
  "\<exists>db. DBDB_set_all (connect new_file) [(16 :: int, ''big''), (15, ''med''), (14, ''sml'')] =
       Some (Inr (), db) \<and>
     DBDB_get_left db 16 = Some (Inr (15, Some ''med''), current db) \<and>
     DBDB_get_right db 16 = Some (Inl (AttributeError ''NoneType'' ''key''), current db) \<and>
     DBDB_get_left db 14 = Some (Inl (AttributeError ''NoneType'' ''key''), current db) \<and>
     DBDB_get_left db 17 = Some (Inl KeyError, current db)"
proof -
  from three_keys_state obtain db where
    db: "DBDB_set_all (connect new_file) [(16 :: int, ''big''), (15, ''med''), (14, ''sml'')] =
       Some (Inr (), db)"
    "db_state db \<langle>\<langle>\<langle>\<langle>\<rangle>, (14, Some ''sml''), \<langle>\<rangle>\<rangle>, (15, Some ''med''), \<langle>\<rangle>\<rangle>, (16, Some ''big''), \<langle>\<rangle>\<rangle> \<langle>\<rangle>"
    by blast
  from get_left_right_child [OF db(2), of 16] get_left_right_child [OF db(2), of 14]
    get_left_right_child [OF db(2), of 17] db(1)
  show ?thesis by (intro exI [of _ db]) simp
qed

text \<open>
  C8. On an open database \<open>delete(key)\<close> fails for every key, with the
  \<open>AttributeError\<close> for the method that \<open>BinaryTree\<close> does not have (the
  unsupported-operation error of the specification), and leaves the database, its tree
  and its file, as it was.
\<close>

theorem delete_unsupported:
  "\<not> closed (storage db) \<Longrightarrow>
   DBDB_delete db k = (Inl (AttributeError ''BinaryTree'' ''delete''), db)"
  by (simp add: DBDB_delete_def assert_not_closed_def)

theorem delete_unsupported_witness:
  "\<not> closed (storage (connect (new_file :: int dbfile))) \<and>
   DBDB_delete (connect new_file) (3 :: int) =
     (Inl (AttributeError ''BinaryTree'' ''delete''), connect new_file)"
  using delete_unsupported [of "connect (new_file :: int dbfile)" 3]
  by (simp add: connect_new_file)

text \<open>
  C9 as stated fails for \<open>close\<close>: on a handle that is closed, \<open>close\<close> returns
  normally.
\<close>

theorem close_on_closed_handle_returns:
  "closed (storage (snd (DBDB_close (connect (new_file :: int dbfile))))) \<and>
   fst (DBDB_close (snd (DBDB_close (connect (new_file :: int dbfile))))) = Inr () \<and>
   fst (DBDB_close (snd (DBDB_close (connect (new_file :: int dbfile))))) \<noteq>
     Inl (ValueError ''Database closed.'')"
  by (simp add: DBDB_close_def Storage_close_def)

text \<open>
  C9, amended. On a closed handle each of \<open>get\<close>, \<open>set\<close>, \<open>commit\<close>, \<open>get_min\<close>,
  \<open>get_left\<close>, \<open>get_right\<close>, \<open>chop\<close> and \<open>delete\<close> fails with
  \<open>ValueError('Database closed.')\<close> and leaves the handle as it is; \<open>close\<close> returns
  normally and leaves the handle closed.
\<close>

theorem closed_handle_rejects:
  assumes "closed (storage db)"
  shows "DBDB_get db k = Some (Inl (ValueError ''Database closed.''), db) \<and>
    DBDB_set db k v = Some (Inl (ValueError ''Database closed.''), db) \<and>
    DBDB_commit plen db = (Inl (ValueError ''Database closed.''), db) \<and>
    DBDB_get_min db = Some (Inl (ValueError ''Database closed.''), db) \<and>
    DBDB_get_left db k = Some (Inl (ValueError ''Database closed.''), db) \<and>
    DBDB_get_right db k = Some (Inl (ValueError ''Database closed.''), db) \<and>
    DBDB_chop db k = Some (Inl (ValueError ''Database closed.''), db) \<and>
    DBDB_delete db k = (Inl (ValueError ''Database closed.''), db) \<and>
    fst (DBDB_close db) = Inr () \<and>
    closed (storage (snd (DBDB_close db)))"
  using assms
  by (simp add: DBDB_get_def DBDB_set_def DBDB_commit_def DBDB_get_min_def
      DBDB_get_left_def DBDB_get_right_def DBDB_chop_def DBDB_delete_def DBDB_close_def
      Storage_close_def assert_not_closed_def)

theorem closed_handle_rejects_witness:
  "closed (storage (snd (DBDB_close (connect (new_file :: int dbfile))))) \<and>
   DBDB_get (snd (DBDB_close (connect new_file))) (1 :: int) =
     Some (Inl (ValueError ''Database closed.''), snd (DBDB_close (connect new_file))) \<and>
   DBDB_set (snd (DBDB_close (connect new_file))) (1 :: int) ''a'' =
     Some (Inl (ValueError ''Database closed.''), snd (DBDB_close (connect new_file))) \<and>
   DBDB_commit (\<lambda>_. 60) (snd (DBDB_close (connect (new_file :: int dbfile)))) =
     (Inl (ValueError ''Database closed.''), snd (DBDB_close (connect new_file))) \<and>
   DBDB_chop (snd (DBDB_close (connect new_file))) (1 :: int) =
     Some (Inl (ValueError ''Database closed.''), snd (DBDB_close (connect new_file)))"
proof -
  have c: "closed (storage (snd (DBDB_close (connect (new_file :: int dbfile)))))"
    by (simp add: DBDB_close_def Storage_close_def)
  from closed_handle_rejects [OF c, of 1 "''a''" "\<lambda>_. 60"] c show ?thesis by simp
qed

text \<open>
  C10. On a database opened on a file whose root address is 0, \<open>get_min()\<close> raises the
  \<open>AttributeError\<close> of \<open>node.left_ref\<close> on \<open>None\<close>, not \<open>KeyError\<close>. On an open
  database whose tree has a key it returns the value of the leftmost node.
\<close>

theorem get_min_empty_attribute_error:
  "(root f = 0 \<longrightarrow>
      DBDB_get_min (connect f) =
        Some (Inl (AttributeError ''NoneType'' ''left_ref''), connect f)) \<and>
   (\<not> closed (storage db) \<and> denotes (storage db) (tree_ref db) t \<and> t \<noteq> Leaf \<longrightarrow>
      (\<exists>k v. spec_min t = Some (k, v) \<and> DBDB_get_min db = Some (Inr v, db)))"
proof (intro conjI impI)
  assume "root f = 0"
  then show "DBDB_get_min (connect f) =
      Some (Inl (AttributeError ''NoneType'' ''left_ref''), connect f)"
    by (simp add: connect_def DBDB_init_def BinaryTree_init_def refresh_tree_ref_def
        get_root_address_def Storage_init_def ensure_superblock_def lock_def unlock_def Let_def
        DBDB_get_min_def assert_not_closed_def BinaryTree_get_min_def follow_def
        BinaryNodeRef_get_def)
next
  assume a: "\<not> closed (storage db) \<and> denotes (storage db) (tree_ref db) t \<and> t \<noteq> Leaf"
  then obtain k v where "spec_min t = Some (k, v)"
    by (cases "spec_min t") auto
  with a DBDB_get_min_spec [of db t] show
    "\<exists>k v. spec_min t = Some (k, v) \<and> DBDB_get_min db = Some (Inr v, db)"
    by simp
qed

theorem get_min_empty_attribute_error_witness:
  "DBDB_get_min (connect (new_file :: int dbfile)) =
     Some (Inl (AttributeError ''NoneType'' ''left_ref''), connect new_file) \<and>
   (\<exists>db. DBDB_set_all (connect new_file) [(16 :: int, ''big''), (15, ''med''), (14, ''sml'')] =
       Some (Inr (), db) \<and>
     DBDB_get_min db = Some (Inr (Some ''sml''), db))"
proof -
  from three_keys_state obtain db where
    db: "DBDB_set_all (connect new_file) [(16 :: int, ''big''), (15, ''med''), (14, ''sml'')] =
       Some (Inr (), db)"
    "db_state db \<langle>\<langle>\<langle>\<langle>\<rangle>, (14, Some ''sml''), \<langle>\<rangle>\<rangle>, (15, Some ''med''), \<langle>\<rangle>\<rangle>, (16, Some ''big''), \<langle>\<rangle>\<rangle> \<langle>\<rangle>"
    by blast
  let ?t = "\<langle>\<langle>\<langle>\<langle>\<rangle>, (14 :: int, Some ''sml''), \<langle>\<rangle>\<rangle>, (15, Some ''med''), \<langle>\<rangle>\<rangle>, (16, Some ''big''), \<langle>\<rangle>\<rangle>"
  from db(2) have h: "\<not> closed (storage db)" "denotes (storage db) (tree_ref db) ?t"
    by (simp_all add: db_state_def)
  from get_min_empty_attribute_error [of "new_file :: int dbfile" db ?t] h db(1)
  show ?thesis by (simp add: new_file_def)
qed

end
